theory Spec2Isabelle
  imports Main "HOL-Library.Word"
begin

unbundle bit_operations_syntax

section \<open>FastCDC 2020 chunker: data model\<close>

text \<open>
  The Go package \<^verbatim>\<open>fastcdc\<close> (file \<^verbatim>\<open>fastcdc/fastcdc.go\<close>) splits a byte stream into
  content-defined chunks.  Bytes are 8-bit words, fingerprints, masks and gear entries are
  64-bit words (Go's \<^verbatim>\<open>uint64\<close>: \<open>+\<close> wraps, \<open>push_bit\<close> is \<^verbatim>\<open><<\<close>).  The user-supplied
  sizes of \<^verbatim>\<open>options\<close> are Go \<^verbatim>\<open>int\<close>s (64 bits wide) and are kept as \<open>int\<close>, with the
  wrap-around of the two multiplications of \<^verbatim>\<open>setDefaults\<close> written out.  The sizes and
  cursors stored in a \<^verbatim>\<open>Chunker\<close> are indices into byte slices; they are kept as \<open>nat\<close>, and
  every place where Go would panic on a slice bound or an index is an explicit
  \<open>RuntimePanic\<close> branch.
\<close>

type_synonym byte = "8 word"
type_synonym uint64 = "64 word"

datatype error =
    EOF
  | ErrUnexpectedEOF
  | SourceError nat
  | ConfigError string
  | RuntimePanic

definition absoluteMinSize :: int where
  "absoluteMinSize = 64"

definition absoluteMaxSize :: int where
  "absoluteMaxSize = 2 ^ 30"

definition defaultNormalization :: int where
  "defaultNormalization = 2"

text \<open>Go's \<^verbatim>\<open>int\<close> arithmetic: results wrap to 64-bit two's complement, division truncates.\<close>

definition wrap64 :: "int \<Rightarrow> int" where
  "wrap64 x = signed_take_bit 63 x"

definition go_div :: "int \<Rightarrow> int \<Rightarrow> int" where
  "go_div a b = sgn a * sgn b * (\<bar>a\<bar> div \<bar>b\<bar>)"

subsection \<open>The mask and gear tables\<close>

definition masks :: "uint64 list" where
  "masks =
    [0, 0, 0, 0, 0,
     0x0000000001804110, 0x0000000001803110, 0x0000000018035100,
     0x0000001800035300, 0x0000019000353000, 0x0000590003530000,
     0x0000d90003530000, 0x0000d90103530000, 0x0000d90303530000,
     0x0000d90313530000, 0x0000d90f03530000, 0x0000d90303537000,
     0x0000d90703537000, 0x0000d90707537000, 0x0000d91707537000,
     0x0000d91747537000, 0x0000d91767537000, 0x0000d93767537000,
     0x0000d93777537000, 0x0000d93777577000, 0x0000db3777577000]"

definition pkg_gear :: "uint64 list" where
  "pkg_gear =
    [
     0x3b5d3c7d207e37dc, 0x784d68ba91123086, 0xcd52880f882e7298, 0xeacf8e4e19fdcca7,
     0xc31f385dfbd1632b, 0x1d5f27001e25abe6, 0x83130bde3c9ad991, 0xc4b225676e9b7649,
     0xaa329b29e08eb499, 0xb67fcbd21e577d58, 0x0027baaada2acf6b, 0xe3ef2d5ac73c2226,
     0x0890f24d6ed312b7, 0xa809e036851d7c7e, 0xf0a6fe5e0013d81b, 0x1d026304452cec14,
     0x03864632648e248f, 0xcdaacf3dcd92b9b4, 0xf5e012e63c187856, 0x8862f9d3821c00b6,
     0xa82f7338750f6f8a, 0x1e583dc6c1cb0b6f, 0x7a3145b69743a7f1, 0xabb20fee404807eb,
     0xb14b3cfe07b83a5d, 0xb9dc27898adb9a0f, 0x3703f5e91baa62be, 0xcf0bb866815f7d98,
     0x3d9867c41ea9dcd3, 0x1be1fa65442bf22c, 0x14300da4c55631d9, 0xe698e9cbc6545c99,
     0x4763107ec64e92a5, 0xc65821fc65696a24, 0x76196c064822f0b7, 0x485be841f3525e01,
     0xf652bc9c85974ff5, 0xcad8352face9e3e9, 0x2a6ed1dceb35e98e, 0xc6f483badc11680f,
     0x3cfd8c17e9cf12f1, 0x89b83c5e2ea56471, 0xae665cfd24e392a9, 0xec33c4e504cb8915,
     0x3fb9b15fc9fe7451, 0xd7fd1fd1945f2195, 0x31ade0853443efd8, 0x255efc9863e1e2d2,
     0x10eab6008d5642cf, 0x46f04863257ac804, 0xa52dc42a789a27d3, 0xdaaadf9ce77af565,
     0x6b479cd53d87febb, 0x6309e2d3f93db72f, 0xc5738ffbaa1ff9d6, 0x6bd57f3f25af7968,
     0x67605486d90d0a4a, 0xe14d0b9663bfbdae, 0xb7bbd8d816eb0414, 0xdef8a4f16b35a116,
     0xe7932d85aaaffed6, 0x08161cbae90cfd48, 0x855507beb294f08b, 0x91234ea6ffd399b2,
     0xad70cf4b2435f302, 0xd289a97565bc2d27, 0x8e558437ffca99de, 0x96d2704b7115c040,
     0x0889bbcdfc660e41, 0x5e0d4e67dc92128d, 0x72a9f8917063ed97, 0x438b69d409e016e3,
     0xdf4fed8a5d8a4397, 0x00f41dcf41d403f7, 0x4814eb038e52603f, 0x9dafbacc58e2d651,
     0xfe2f458e4be170af, 0x4457ec414df6a940, 0x06e62f1451123314, 0xbd1014d173ba92cc,
     0xdef318e25ed57760, 0x9fea0de9dfca8525, 0x459de1e76c20624b, 0xaeec189617e2d666,
     0x126a2c06ab5a83cb, 0xb1321532360f6132, 0x65421503dbb40123, 0x2d67c287ea089ab3,
     0x6c93bff5a56bd6b6, 0x4ffb2036cab6d98d, 0xce7b785b1be7ad4f, 0xedb42ef6189fd163,
     0xdc905288703988f6, 0x365f9c1d2c691884, 0xc640583680d99bfe, 0x3cd4624c07593ec6,
     0x7f1ea8d85d7c5805, 0x014842d480b57149, 0x0b649bcb5a828688, 0xbcd5708ed79b18f0,
     0xe987c862fbd2f2f0, 0x982731671f0cd82c, 0xbaf13e8b16d8c063, 0x8ea3109cbd951bba,
     0xd141045bfb385cad, 0x2acbc1a0af1f7d30, 0xe6444d89df03bfdf, 0xa18cc771b8188ff9,
     0x9834429db01c39bb, 0x214add07fe086a1f, 0x8f07c19b1f6b3ff9, 0x56a297b1bf4ffe55,
     0x94d558e493c54fc7, 0x40bfc24c764552cb, 0x931a706f8a8520cb, 0x32229d322935bd52,
     0x2560d0f5dc4fefaf, 0x9dbcc48355969bb6, 0x0fd81c3985c0b56a, 0xe03817e1560f2bda,
     0xc1bb4f81d892b2d5, 0xb0c4864f4e28d2d7, 0x3ecc49f9d9d6c263, 0x51307e99b52ba65e,
     0x8af2b688da84a752, 0xf5d72523b91b20b6, 0x6d95ff1ff4634806, 0x562f21555458339a,
     0xc0ce47f889336346, 0x487823e5089b40d8, 0xe4727c7ebc6d9592, 0x5a8f7277e94970ba,
     0xfca2f406b1c8bb50, 0x5b1f8a95f1791070, 0xd304af9fc9028605, 0x5440ab7fc930e748,
     0x312d25fbca2ab5a1, 0x10f4a4b234a4d575, 0x90301d55047e7473, 0x3b6372886c61591e,
     0x293402b77c444e06, 0x451f34a4d3e97dd7, 0x3158d814d81bc57b, 0x034942425b9bda69,
     0xe2032ff9e532d9bb, 0x62ae066b8b2179e5, 0x9545e10c2f8d71d8, 0x7ff7483eb2d23fc0,
     0x00945fcebdc98d86, 0x8764bbbe99b26ca2, 0x1b1ec62284c0bfc3, 0x58e0fcc4f0aa362b,
     0x5f4abefa878d458d, 0xfd74ac2f9607c519, 0xa4e3fb37df8cbfa9, 0xbf697e43cac574e5,
     0x86f14a3f68f4cd53, 0x24a23d076f1ce522, 0xe725cd8048868cc8, 0xbf3c729eb2464362,
     0xd8f6cd57b3cc1ed8, 0x6329e52425541577, 0x62aa688ad5ae1ac0, 0x0a242566269bf845,
     0x168b1a4753aca74b, 0xf789afefff2e7e3c, 0x6c3362093b6fccdb, 0x4ce8f50bd28c09b2,
     0x006a2db95ae8aa93, 0x975b0d623c3d1a8c, 0x18605d3935338c5b, 0x5bb6f6136cad3c71,
     0x0f53a20701f8d8a6, 0xab8c5ad2e7e93c67, 0x40b5ac5127acaa29, 0x8c7bf63c2075895f,
     0x78bd9f7e014a805c, 0xb2c9e9f4f9c8c032, 0xefd6049827eb91f3, 0x2be459f482c16fbd,
     0xd92ce0c5745aaa8c, 0x0aaa8fb298d965b9, 0x2b37f92c6c803b15, 0x8c54a5e94e0f0e78,
     0x95f9b6e90c0a3032, 0xe7939faa436c7874, 0xd16bfe8f6a8a40c9, 0x44982b86263fd2fa,
     0xe285fb39f984e583, 0x779a8df72d7619d3, 0xf2d79a8de8d5dd1e, 0xd1037354d66684e2,
     0x004c82a4e668a8e5, 0x31d40a7668b044e6, 0xd70578538bd02c11, 0xdb45431078c5f482,
     0x977121bb7f6a51ad, 0x73d5ccbd34eff8dd, 0xe437a07d356e17cd, 0x47b2782043c95627,
     0x9fb251413e41d49a, 0xccd70b60652513d3, 0x1c95b31e8a1b49b2, 0xcae73dfd1bcb4c1b,
     0x34d98331b1f5b70f, 0x784e39f22338d92f, 0x18613d4a064df420, 0xf1d8dae25f0bcebe,
     0x33f77c15ae855efc, 0x3c88b3b912eb109c, 0x956a2ec96bafeea5, 0x1aa005b5e0ad0e87,
     0x5500d70527c4bb8e, 0xe36c57196421cc44, 0x13c4d286cc36ee39, 0x5654a23d818b2a81,
     0x77b1dc13d161abdc, 0x734f44de5f8d5eb5, 0x60717e174a6c89a2, 0xd47d9649266a211e,
     0x5b13a4322bb69e90, 0xf7669609f8b5fc3c, 0x21e6ac55bedcdac9, 0x9b56b62b61166dea,
     0xf48f66b939797e9c, 0x35f332f9c0e6ae9a, 0xcc733f6a9a878db0, 0x3da161e41cc108c2,
     0xb7d74ae535914d51, 0x4d493b0b11d36469, 0xce264d1dfba9741a, 0xa9d1f2dc7436dc06,
     0x70738016604c2a27, 0x231d36e96e93f3d5, 0x7666881197838d19, 0x4a2a83090aaad40c,
     0xf1e761591668b35d, 0x7363236497f730a7, 0x301080e37379dd4d, 0x502dea2971827042,
     0xc2c5eb858f32625f, 0x786afb9edfafbdff, 0xdaee0d868490b2a4, 0x617366b3268609f6,
     0xae0e35a0fe46173e, 0xd1a07de93e824f11, 0x079b8b115ea4cca8, 0x93a99274558faebb,
     0xfb1e6e22e08a03b3, 0xea635fdba3698dd0, 0xcf53659328503a5c, 0xcde3b31e6fd5d780,
     0x8e3e4221d3614413, 0xef14d0d86bf1a22c, 0xe1d830d3f16c5ddb, 0xaabd2b2a451504e1]"

text \<open>\<^verbatim>\<open>init()\<close>: \<^verbatim>\<open>gearShifted[i] = gear[i] << 1\<close> for each of the 256 entries.\<close>

definition pkg_gearShifted :: "uint64 list" where
  "pkg_gearShifted = map (\<lambda>g. push_bit 1 g) pkg_gear"

subsection \<open>Options\<close>

record options =
  o_averageSize :: int
  o_minSize :: int
  o_maxSize :: int
  o_normalization :: int
  o_disableNormalization :: bool
  o_seed :: uint64
  o_bufSize :: int

text \<open>An \<^verbatim>\<open>Option\<close> is a function mutating the options; the five constructors of the
  package are the five cases.\<close>

datatype ChunkerOption =
    WithMinSize int
  | WithMaxSize int
  | WithNormalization int
  | WithSeed uint64
  | WithBufferSize int

fun apply_option :: "ChunkerOption \<Rightarrow> options \<Rightarrow> options" where
  "apply_option (WithMinSize sz) opts = opts\<lparr>o_minSize := sz\<rparr>"
| "apply_option (WithMaxSize sz) opts = opts\<lparr>o_maxSize := sz\<rparr>"
| "apply_option (WithNormalization level) opts =
     opts\<lparr>o_normalization := level, o_disableNormalization := (level = 0)\<rparr>"
| "apply_option (WithSeed s) opts = opts\<lparr>o_seed := s\<rparr>"
| "apply_option (WithBufferSize sz) opts = opts\<lparr>o_bufSize := sz\<rparr>"

definition initial_options :: "int \<Rightarrow> options" where
  "initial_options averageSize =
     \<lparr>o_averageSize = averageSize, o_minSize = 0, o_maxSize = 0, o_normalization = 0,
      o_disableNormalization = False, o_seed = 0, o_bufSize = 0\<rparr>"

definition setDefaults :: "options \<Rightarrow> options" where
  "setDefaults opts =
     (let o1 = (if o_minSize opts = 0
                then opts\<lparr>o_minSize := go_div (o_averageSize opts) 4\<rparr> else opts);
          o2 = (if o_maxSize o1 = 0
                then o1\<lparr>o_maxSize := wrap64 (o_averageSize o1 * 4)\<rparr> else o1);
          o3 = (if o_bufSize o2 = 0
                then o2\<lparr>o_bufSize := wrap64 (o_maxSize o2 * 2)\<rparr> else o2)
      in if \<not> o_disableNormalization o3 \<and> o_normalization o3 = 0
         then o3\<lparr>o_normalization := defaultNormalization\<rparr> else o3)"

definition validate :: "options \<Rightarrow> error option" where
  "validate opts =
     (if o_averageSize opts < absoluteMinSize \<or> o_averageSize opts > absoluteMaxSize
        then Some (ConfigError ''AverageSize must be in range 64B to 1GiB'')
      else if o_averageSize opts \<le> 0 \<or> (o_averageSize opts AND (o_averageSize opts - 1)) \<noteq> 0
        then Some (ConfigError ''AverageSize must be a power of 2'')
      else if o_minSize opts < absoluteMinSize \<or> o_minSize opts > absoluteMaxSize
        then Some (ConfigError ''MinSize must be in range 64B to 1GiB'')
      else if o_maxSize opts < absoluteMinSize \<or> o_maxSize opts > absoluteMaxSize
        then Some (ConfigError ''MaxSize must be in range 64B to 1GiB'')
      else if o_maxSize opts \<le> o_minSize opts
        then Some (ConfigError ''MinSize must be less than MaxSize'')
      else if o_averageSize opts > o_maxSize opts \<or> o_averageSize opts < o_minSize opts
        then Some (ConfigError ''AverageSize must be between MinSize and MaxSize'')
      else if \<not> o_disableNormalization opts
              \<and> (o_normalization opts < 0 \<or> o_normalization opts > 3)
        then Some (ConfigError ''Normalization must be 0, 1, 2, or 3'')
      else if o_bufSize opts \<le> o_maxSize opts
        then Some (ConfigError ''BufferSize must be greater than MaxSize'')
      else None)"

subsection \<open>The byte source\<close>

text \<open>
  The source is any \<^verbatim>\<open>io.Reader\<close>.  It is modelled as a script of the results its
  successive \<^verbatim>\<open>Read\<close> calls will give: each entry holds bytes it still has to hand out and
  the error it returns together with the last of them (\<open>None\<close> is \<^verbatim>\<open>nil\<close>).  A call asking
  for \<open>n\<close> bytes gets at most \<open>n\<close> of the entry's bytes; an entry is dropped once its bytes
  are delivered.  The empty script answers \<^verbatim>\<open>(0, io.EOF)\<close> for ever.  So a source may
  split its content into reads of any sizes, return zero bytes without an error, return
  bytes together with \<^verbatim>\<open>io.EOF\<close>, or fail with any error at any point.
\<close>

type_synonym Reader = "(byte list \<times> error option) list"

fun Read :: "nat \<Rightarrow> Reader \<Rightarrow> byte list \<times> error option \<times> Reader" where
  "Read n [] = ([], Some EOF, [])"
| "Read n ((bs, e) # rest) =
     (if length bs \<le> n then (bs, e, rest)
      else (take n bs, None, (drop n bs, e) # rest))"

text \<open>
  \<^verbatim>\<open>io.ReadFull(r, buf)\<close> is \<^verbatim>\<open>io.ReadAtLeast(r, buf, len(buf))\<close>: it calls \<^verbatim>\<open>Read\<close> on the
  unfilled rest of the slice until the slice is full or an error comes back; it drops
  the error when the slice is full and turns \<^verbatim>\<open>io.EOF\<close> after some bytes into
  \<^verbatim>\<open>io.ErrUnexpectedEOF\<close>.  The model returns the bytes it has written to the front of
  the slice.
\<close>

function ReadAtLeast_loop :: "nat \<Rightarrow> Reader \<Rightarrow> byte list \<Rightarrow> byte list \<times> error option \<times> Reader" where
  "ReadAtLeast_loop m r acc =
     (if length acc < m
      then (case Read (m - length acc) r of
              (bs, None, r') \<Rightarrow> ReadAtLeast_loop m r' (acc @ bs)
            | (bs, Some e, r') \<Rightarrow> (acc @ bs, Some e, r'))
      else (acc, None, r))"
  by pat_completeness auto
termination
  apply (relation "measure (\<lambda>(m, r, acc). (m - length acc) + length r)")
   apply simp
  subgoal for m r acc x b
    by (cases r) (auto split: if_splits)
  done

definition ReadFull :: "nat \<Rightarrow> Reader \<Rightarrow> byte list \<times> error option \<times> Reader" where
  "ReadFull m r =
     (case ReadAtLeast_loop m r [] of
        (bs, err, r') \<Rightarrow>
          if length bs \<ge> m then (bs, None, r')
          else if length bs > 0 \<and> err = Some EOF then (bs, Some ErrUnexpectedEOF, r')
          else (bs, err, r'))"

subsection \<open>Chunks and the chunker\<close>

record Chunk =
  Offset :: int
  Length :: nat
  Data :: "byte list"
  Fingerprint :: uint64

text \<open>
  The sizes of a \<^verbatim>\<open>Chunker\<close> come out of \<^verbatim>\<open>validate\<close> (all at least 64), and its fields
  are not exported, so a chunker is only ever built by \<^verbatim>\<open>NewChunker\<close>.  The two gear
  arrays (\<^verbatim>\<open>[256]uint64\<close>) are lists of 256 entries, indexed by a byte.  The source is kept
  in the \<open>reader\<close> field as the script of what it has still to deliver.
\<close>

record Chunker =
  minSize :: nat
  maxSize :: nat
  normalizeSize :: nat
  maskSmall :: uint64
  maskLarge :: uint64
  maskSmallShifted :: uint64
  maskLargeShifted :: uint64
  gear :: "uint64 list"
  gearShifted :: "uint64 list"
  reader :: Reader
  buf :: "byte list"
  bufCursor :: nat
  bufEnd :: nat
  streamPos :: int
  readerEOF :: bool

text \<open>\<^verbatim>\<open>bits.TrailingZeros(uint(x))\<close> for a 64-bit \<^verbatim>\<open>uint\<close>: 64 when no bit is set.\<close>

fun tz_count :: "nat \<Rightarrow> nat \<Rightarrow> nat" where
  "tz_count 0 x = 0"
| "tz_count (Suc k) x = (if odd x then 0 else Suc (tz_count k (x div 2)))"

definition TrailingZeros :: "int \<Rightarrow> nat" where
  "TrailingZeros x = (let u = nat (x mod 2 ^ 64) in if u = 0 then 64 else tz_count 64 u)"

definition NewChunker :: "Reader \<Rightarrow> int \<Rightarrow> ChunkerOption list \<Rightarrow> error + Chunker" where
  "NewChunker rd averageSize opts =
     (let opt = setDefaults (foldl (\<lambda>acc f. apply_option f acc) (initial_options averageSize) opts)
      in case validate opt of
           Some err \<Rightarrow> Inl err
         | None \<Rightarrow>
            (let seedGear = (if o_seed opt \<noteq> 0
                             then map (\<lambda>g. g XOR o_seed opt) pkg_gear else pkg_gear);
                 seedGearShifted = (if o_seed opt \<noteq> 0
                             then map (\<lambda>g. g XOR push_bit 1 (o_seed opt)) pkg_gearShifted
                             else pkg_gearShifted);
                 norm = (if o_disableNormalization opt then 0 else o_normalization opt);
                 log2Avg = int (TrailingZeros (o_averageSize opt));
                 smallBits = log2Avg + norm;
                 largeBits = log2Avg - norm
             in if smallBits > 25 \<or> largeBits < 5
                then Inl (ConfigError
                       ''AverageSize/Normalization combination exceeds mask table bounds'')
                else
                  (let maskS = masks ! nat smallBits;
                       maskL = masks ! nat largeBits
                   in Inr \<lparr>minSize = nat (o_minSize opt),
                           maxSize = nat (o_maxSize opt),
                           normalizeSize = nat (o_averageSize opt),
                           maskSmall = maskS,
                           maskLarge = maskL,
                           maskSmallShifted = push_bit 1 maskS,
                           maskLargeShifted = push_bit 1 maskL,
                           gear = seedGear,
                           gearShifted = seedGearShifted,
                           reader = rd,
                           buf = replicate (nat (o_bufSize opt)) 0,
                           bufCursor = nat (o_bufSize opt),
                           bufEnd = nat (o_bufSize opt),
                           streamPos = 0,
                           readerEOF = False\<rparr>)))"

definition Reset :: "Chunker \<Rightarrow> Reader \<Rightarrow> Chunker" where
  "Reset c rd =
     c\<lparr>reader := rd, streamPos := 0, readerEOF := False,
       bufCursor := length (buf c), bufEnd := length (buf c)\<rparr>"

subsection \<open>The sliding buffer\<close>

text \<open>
  \<^verbatim>\<open>fillBuffer\<close> returns its error (\<open>None\<close> is \<^verbatim>\<open>nil\<close>) and the updated chunker.  A negative
  \<^verbatim>\<open>availableToRead\<close> or a cursor beyond the buffer makes the slice expressions of the
  \<^verbatim>\<open>copy\<close> panic.  \<^verbatim>\<open>copy\<close> moves as many bytes as the shorter of its two slices holds.
\<close>

definition fillBuffer :: "Chunker \<Rightarrow> error option \<times> Chunker" where
  "fillBuffer c =
     (if bufEnd c < bufCursor c then (Some RuntimePanic, c)
      else
        (let availableToRead = bufEnd c - bufCursor c
         in if availableToRead \<ge> maxSize c then (None, c)
            else if availableToRead > length (buf c) \<or> bufCursor c > length (buf c)
              then (Some RuntimePanic, c)
            else
              (let src = take availableToRead (drop (bufCursor c) (buf c));
                   buf1 = src @ drop (length src) (buf c);
                   c1 = c\<lparr>buf := buf1, bufCursor := 0\<rparr>
               in if readerEOF c1 then (None, c1\<lparr>bufEnd := availableToRead\<rparr>)
                  else
                    (case ReadFull (length buf1 - availableToRead) (reader c1) of
                       (bs, err, rd') \<Rightarrow>
                         (let c2 = c1\<lparr>buf := take availableToRead buf1 @ bs
                                              @ drop (availableToRead + length bs) buf1,
                                        reader := rd'\<rparr>
                          in if err = Some EOF \<or> err = Some ErrUnexpectedEOF
                             then (None, c2\<lparr>bufEnd := availableToRead + length bs,
                                             readerEOF := True\<rparr>)
                             else (err, c2))))))"

subsection \<open>The cut-point finder\<close>

text \<open>\<^verbatim>\<open>x &^ 1\<close> on a non-negative \<^verbatim>\<open>int\<close>.\<close>

definition and_not_1 :: "nat \<Rightarrow> nat" where
  "and_not_1 x = nat (int x AND NOT 1)"

text \<open>
  The two \<^verbatim>\<open>for\<close> loops of \<^verbatim>\<open>cut\<close> differ only in their masks and bounds, so one
  function models both.  A loop ends with a boundary (its \<^verbatim>\<open>return\<close>), or falls through
  with the fingerprint, or indexes \<^verbatim>\<open>data\<close> out of range.
\<close>

datatype scan = Boundary nat uint64 | NoBoundary uint64 | OutOfRange

function scan_loop ::
  "uint64 list \<Rightarrow> uint64 list \<Rightarrow> uint64 \<Rightarrow> uint64 \<Rightarrow> byte list \<Rightarrow> nat \<Rightarrow> nat \<Rightarrow> uint64 \<Rightarrow> scan"
where
  "scan_loop localGear localGearShifted mskShifted msk data i stop fingerprint =
     (if i < stop then
        (if i \<ge> length data then OutOfRange
         else
           (let fp1 = push_bit 2 fingerprint + localGearShifted ! unat (data ! i)
            in if fp1 AND mskShifted = 0 then Boundary i fp1
               else if i + 1 \<ge> length data then OutOfRange
               else
                 (let fp2 = fp1 + localGear ! unat (data ! (i + 1))
                  in if fp2 AND msk = 0 then Boundary (i + 1) fp2
                     else scan_loop localGear localGearShifted mskShifted msk data
                            (i + 2) stop fp2)))
      else NoBoundary fingerprint)"
  by pat_completeness auto
termination
  by (relation "measure (\<lambda>(g, gs, ms, m, data, i, stop, fp). stop - i)") auto

definition cut :: "Chunker \<Rightarrow> byte list \<Rightarrow> error + (nat \<times> uint64)" where
  "cut c data =
     (let localGear = gear c;
          localGearShifted = gearShifted c;
          dataLen = length data
      in if dataLen \<le> minSize c then Inr (dataLen, 0)
         else
           (let maxBoundary = (if dataLen > maxSize c then maxSize c else dataLen);
                normalizeBoundary = (if maxBoundary < normalizeSize c then maxBoundary
                                     else normalizeSize c)
            in if maxBoundary = 0 then Inl RuntimePanic
               else
                 (let scanStart = and_not_1 (minSize c);
                      normalizeAt = and_not_1 normalizeBoundary;
                      scanEnd = and_not_1 maxBoundary
                  in case scan_loop localGear localGearShifted (maskSmallShifted c)
                            (maskSmall c) data scanStart normalizeAt 0 of
                       OutOfRange \<Rightarrow> Inl RuntimePanic
                     | Boundary i fp \<Rightarrow> Inr (i, fp)
                     | NoBoundary fp \<Rightarrow>
                         (case scan_loop localGear localGearShifted (maskLargeShifted c)
                                 (maskLarge c) data normalizeAt scanEnd fp of
                            OutOfRange \<Rightarrow> Inl RuntimePanic
                          | Boundary i fp' \<Rightarrow> Inr (i, fp')
                          | NoBoundary fp' \<Rightarrow> Inr (maxBoundary, fp')))))"

subsection \<open>The facade\<close>

text \<open>
  \<^verbatim>\<open>Next\<close> returns the chunk or the error, and the updated chunker.  \<open>Data\<close> is the
  content of the slice \<^verbatim>\<open>c.buf[c.bufCursor : c.bufCursor+length]\<close> at the moment of the
  return.  \<open>streamPos\<close> is a Go \<^verbatim>\<open>int\<close>: its addition wraps.
\<close>

definition Next :: "Chunker \<Rightarrow> (error + Chunk) \<times> Chunker" where
  "Next c =
     (case fillBuffer c of
        (Some err, c1) \<Rightarrow> (Inl err, c1)
      | (None, c1) \<Rightarrow>
          if bufEnd c1 = 0 then (Inl EOF, c1)
          else if \<not> (bufCursor c1 \<le> bufEnd c1 \<and> bufEnd c1 \<le> length (buf c1))
            then (Inl RuntimePanic, c1)
          else
            (case cut c1 (take (bufEnd c1 - bufCursor c1) (drop (bufCursor c1) (buf c1))) of
               Inl err \<Rightarrow> (Inl err, c1)
             | Inr (len, fp) \<Rightarrow>
                 if bufCursor c1 + len > length (buf c1) then (Inl RuntimePanic, c1)
                 else
                   (Inr \<lparr>Offset = streamPos c1,
                         Length = len,
                         Data = take len (drop (bufCursor c1) (buf c1)),
                         Fingerprint = fp\<rparr>,
                    c1\<lparr>bufCursor := bufCursor c1 + len,
                       streamPos := wrap64 (streamPos c1 + int len)\<rparr>)))"

text \<open>
  The caller's loop: call \<^verbatim>\<open>Next\<close> until it returns an error (\<^verbatim>\<open>io.EOF\<close> included),
  collecting the chunks.  The number of calls is bounded by the fuel; \<open>None\<close> means the
  fuel ran out before an error came back.
\<close>

fun drain :: "nat \<Rightarrow> Chunker \<Rightarrow> (Chunk list \<times> error \<times> Chunker) option" where
  "drain 0 c = None"
| "drain (Suc n) c =
     (case Next c of
        (Inl err, c') \<Rightarrow> Some ([], err, c')
      | (Inr ch, c') \<Rightarrow>
          (case drain n c' of
             None \<Rightarrow> None
           | Some (chs, err, c'') \<Rightarrow> Some (ch # chs, err, c'')))"

section \<open>Notions used to state the properties\<close>

text \<open>The options \<^verbatim>\<open>NewChunker\<close> validates: overrides applied in order, then defaults.\<close>

definition resolve :: "int \<Rightarrow> ChunkerOption list \<Rightarrow> options" where
  "resolve averageSize opts =
     setDefaults (foldl (\<lambda>acc f. apply_option f acc) (initial_options averageSize) opts)"

text \<open>
  A source that never fails: every read returns \<^verbatim>\<open>nil\<close>, except that the last one may
  return \<^verbatim>\<open>io.EOF\<close> together with its bytes.  Its content is the concatenation of what
  its reads deliver.
\<close>

fun clean :: "Reader \<Rightarrow> bool" where
  "clean [] = True"
| "clean [(bs, e)] = (e = None \<or> e = Some EOF)"
| "clean ((bs, e) # r) = (e = None \<and> clean r)"

definition stream_of :: "Reader \<Rightarrow> byte list" where
  "stream_of r = concat (map fst r)"

text \<open>The valid window \<^verbatim>\<open>buf[bufCursor:bufEnd]\<close>, and the bytes not yet emitted.\<close>

definition window :: "Chunker \<Rightarrow> byte list" where
  "window c = take (bufEnd c - bufCursor c) (drop (bufCursor c) (buf c))"

definition pending :: "Chunker \<Rightarrow> byte list" where
  "pending c = window c @ (if readerEOF c then [] else stream_of (reader c))"

definition same_config :: "Chunker \<Rightarrow> Chunker \<Rightarrow> bool" where
  "same_config c c' =
     (minSize c = minSize c' \<and> maxSize c = maxSize c' \<and> normalizeSize c = normalizeSize c'
      \<and> maskSmall c = maskSmall c' \<and> maskLarge c = maskLarge c'
      \<and> maskSmallShifted c = maskSmallShifted c' \<and> maskLargeShifted c = maskLargeShifted c'
      \<and> gear c = gear c' \<and> gearShifted c = gearShifted c'
      \<and> length (buf c) = length (buf c'))"

text \<open>What validation guarantees about the sizes stored in a chunker.\<close>

definition config_ok :: "Chunker \<Rightarrow> bool" where
  "config_ok c =
     (64 \<le> minSize c \<and> minSize c < maxSize c \<and> minSize c \<le> normalizeSize c
      \<and> normalizeSize c \<le> maxSize c \<and> maxSize c < length (buf c))"

text \<open>
  The state invariant of a chunker whose source has not failed: the window lies inside
  the buffer, and until the end of the source has been seen the buffer is full up to
  its end.
\<close>

definition chunker_inv :: "Chunker \<Rightarrow> bool" where
  "chunker_inv c =
     (config_ok c \<and> bufCursor c \<le> bufEnd c \<and> bufEnd c \<le> length (buf c)
      \<and> (readerEOF c \<or> (bufEnd c = length (buf c) \<and> clean (reader c))))"

text \<open>
  The chunk sequence of a byte string, defined on the content alone: cut the rest of the
  stream, emit the chunk, go on behind it.  Offsets advance as \<^verbatim>\<open>streamPos\<close> does.
\<close>

function chunks_of :: "Chunker \<Rightarrow> int \<Rightarrow> byte list \<Rightarrow> Chunk list" where
  "chunks_of c off rest =
     (if rest = [] then []
      else
        (case cut c rest of
           Inl err \<Rightarrow> []
         | Inr (len, fp) \<Rightarrow>
             if len = 0 \<or> length rest < len then []
             else \<lparr>Offset = off, Length = len, Data = take len rest, Fingerprint = fp\<rparr>
                  # chunks_of c (wrap64 (off + int len)) (drop len rest)))"
  by pat_completeness auto
termination
  by (relation "measure (\<lambda>(c, off, rest). length rest)") auto

text \<open>The states a chunker can be in: after any sequence of \<^verbatim>\<open>Next\<close> and \<^verbatim>\<open>Reset\<close> calls.\<close>

inductive reachable :: "Chunker \<Rightarrow> Chunker \<Rightarrow> bool" where
  reachable_start: "reachable c c"
| reachable_Next: "reachable c c' \<Longrightarrow> reachable c (snd (Next c'))"
| reachable_Reset: "reachable c c' \<Longrightarrow> reachable c (Reset c' rd)"

text \<open>The chunks of \<open>k\<close> calls of \<^verbatim>\<open>Next\<close> that each returned one, and the chunker after them.\<close>

fun advance :: "nat \<Rightarrow> Chunker \<Rightarrow> (Chunk list \<times> Chunker) option" where
  "advance 0 c = Some ([], c)"
| "advance (Suc k) c =
     (case Next c of
        (Inl err, c') \<Rightarrow> None
      | (Inr ch, c') \<Rightarrow>
          (case advance k c' of
             None \<Rightarrow> None
           | Some (chs, c'') \<Rightarrow> Some (ch # chs, c'')))"

subsection \<open>The cut-point search as the specification words it\<close>

text \<open>
  Section 4.4 of the specification: one scan over the even positions from the rounded
  minimum size to the rounded maximum boundary, two bytes per step, with the small masks
  before the rounded normalize boundary and the large masks from there on; the maximum
  boundary and the accumulated fingerprint if no test fires.
\<close>

definition round_down_even :: "nat \<Rightarrow> nat" where
  "round_down_even n = 2 * (n div 2)"

fun reference_scan ::
  "Chunker \<Rightarrow> byte list \<Rightarrow> nat \<Rightarrow> uint64 \<Rightarrow> nat list \<Rightarrow> (nat \<times> uint64) + uint64"
where
  "reference_scan c region normalizeAt fingerprint [] = Inr fingerprint"
| "reference_scan c region normalizeAt fingerprint (i # positions) =
     (let fp1 = push_bit 2 fingerprint + gearShifted c ! unat (region ! i)
      in if fp1 AND (if i < normalizeAt then maskSmallShifted c else maskLargeShifted c) = 0
         then Inl (i, fp1)
         else
           (let fp2 = fp1 + gear c ! unat (region ! (i + 1))
            in if fp2 AND (if i < normalizeAt then maskSmall c else maskLarge c) = 0
               then Inl (i + 1, fp2)
               else reference_scan c region normalizeAt fp2 positions))"

definition reference_cut :: "Chunker \<Rightarrow> byte list \<Rightarrow> nat \<times> uint64" where
  "reference_cut c region =
     (let maxBoundary = min (length region) (maxSize c);
          normalizeBoundary = min maxBoundary (normalizeSize c);
          start = round_down_even (minSize c);
          normalizeAt = round_down_even normalizeBoundary;
          stop = round_down_even maxBoundary
      in case reference_scan c region normalizeAt 0 (filter even [start..<stop]) of
           Inl boundary \<Rightarrow> boundary
         | Inr fingerprint \<Rightarrow> (maxBoundary, fingerprint))"

text \<open>The bounds check on the mask table indices in \<^verbatim>\<open>NewChunker\<close>.\<close>

definition mask_bits_ok :: "options \<Rightarrow> bool" where
  "mask_bits_ok ro =
     (let norm = (if o_disableNormalization ro then 0 else o_normalization ro);
          log2Avg = int (TrailingZeros (o_averageSize ro))
      in \<not> (log2Avg + norm > 25 \<or> log2Avg - norm < 5))"

section \<open>Configuration and tables\<close>

lemma length_pkg_gear: "length pkg_gear = 256"
  by (simp add: pkg_gear_def)

lemma length_pkg_gearShifted: "length pkg_gearShifted = 256"
  by (simp add: pkg_gearShifted_def length_pkg_gear)

lemma unat_byte_less: "unat (b :: byte) < 256"
  using unsigned_less [of b, where ?'a = nat] by simp

lemma NewChunker_Inr_iff:
  "(\<exists>c. NewChunker rd averageSize opts = Inr c) \<longleftrightarrow>
     validate (resolve averageSize opts) = None \<and> mask_bits_ok (resolve averageSize opts)"
  by (auto simp: NewChunker_def resolve_def mask_bits_ok_def Let_def split: option.splits)


lemma NewChunker_InrD:
  assumes "NewChunker rd averageSize opts = Inr c"
  shows "minSize c = nat (o_minSize (resolve averageSize opts))"
    and "maxSize c = nat (o_maxSize (resolve averageSize opts))"
    and "normalizeSize c = nat (o_averageSize (resolve averageSize opts))"
    and "buf c = replicate (nat (o_bufSize (resolve averageSize opts))) 0"
    and "bufCursor c = nat (o_bufSize (resolve averageSize opts))"
    and "bufEnd c = nat (o_bufSize (resolve averageSize opts))"
    and "streamPos c = 0"
    and "\<not> readerEOF c"
    and "reader c = rd"
    and "gear c = map (\<lambda>g. g XOR o_seed (resolve averageSize opts)) pkg_gear"
    and "gearShifted c = map (\<lambda>g. g XOR push_bit 1 (o_seed (resolve averageSize opts))) pkg_gearShifted"
    and "maskSmallShifted c = push_bit 1 (maskSmall c)"
    and "maskLargeShifted c = push_bit 1 (maskLarge c)"
  using assms
  by (auto simp: NewChunker_def resolve_def Let_def split: option.splits if_splits)






lemma tz_count_numeral:
  "tz_count (numeral f) x = (if odd x then 0 else Suc (tz_count (pred_numeral f) (x div 2)))"
  by (simp add: numeral_eq_Suc)

lemma validate_None_iff:
  "validate ro = None \<longleftrightarrow>
     (64 \<le> o_averageSize ro \<and> o_averageSize ro \<le> 2 ^ 30
      \<and> (o_averageSize ro AND (o_averageSize ro - 1)) = 0
      \<and> 64 \<le> o_minSize ro \<and> o_minSize ro \<le> 2 ^ 30
      \<and> 64 \<le> o_maxSize ro \<and> o_maxSize ro \<le> 2 ^ 30
      \<and> o_minSize ro < o_maxSize ro
      \<and> o_averageSize ro \<le> o_maxSize ro \<and> o_minSize ro \<le> o_averageSize ro
      \<and> (o_disableNormalization ro \<or> (0 \<le> o_normalization ro \<and> o_normalization ro \<le> 3))
      \<and> o_maxSize ro < o_bufSize ro)"
  by (auto simp: validate_def absoluteMinSize_def absoluteMaxSize_def)



lemmas config_eval =
  NewChunker_def resolve_def setDefaults_def validate_def initial_options_def Let_def
  TrailingZeros_def go_div_def wrap64_def absoluteMinSize_def absoluteMaxSize_def
  defaultNormalization_def tz_count_numeral



text \<open>
  Claim C10.  For every chunker \<^verbatim>\<open>NewChunker\<close> returns, whatever the seed (0 included), and
  every byte \<open>b\<close>: the base entry is \<open>gear[b] XOR seed\<close>, the shifted entry is
  \<open>(gear[b] << 1) XOR (seed << 1)\<close>, and the shifted entry is the base entry shifted left by
  one bit (modulo \<open>2^64\<close>).
\<close>

theorem seeded_tables_shifted:
  assumes "NewChunker rd averageSize opts = Inr c"
  shows "gear c ! unat (b :: byte) = pkg_gear ! unat b XOR o_seed (resolve averageSize opts)
         \<and> gearShifted c ! unat b
             = push_bit 1 (pkg_gear ! unat b) XOR push_bit 1 (o_seed (resolve averageSize opts))
         \<and> gearShifted c ! unat b = push_bit 1 (gear c ! unat b)"
  using NewChunker_InrD(10,11) [OF assms] unat_byte_less [of b]
  by (simp add: pkg_gearShifted_def length_pkg_gear push_bit_xor)

theorem seeded_tables_shifted_witness:
  "gearShifted (projr (NewChunker [] 128 [WithMinSize 64, WithSeed 666])) ! unat (248 :: byte)
   = push_bit 1 (gear (projr (NewChunker [] 128 [WithMinSize 64, WithSeed 666])) ! unat (248 :: byte))"
proof -
  have "\<not> isl (NewChunker [] 128 [WithMinSize 64, WithSeed 666])"
    by (simp add: config_eval)
  then have "NewChunker [] 128 [WithMinSize 64, WithSeed 666]
             = Inr (projr (NewChunker [] 128 [WithMinSize 64, WithSeed 666]))"
    by simp
  from seeded_tables_shifted [OF this, of 248] show ?thesis by blast
qed

section \<open>The cut-point finder\<close>

declare scan_loop.simps [simp del]

lemma and_not_1_eq: "and_not_1 x = 2 * (x div 2)"
proof -
  have "int x AND NOT 1 = unset_bit 0 (int x)"
    by (simp add: unset_bit_eq_and_not)
  also have "\<dots> = 2 * (int x div 2)" by (simp add: unset_bit_0)
  finally show ?thesis by (simp add: and_not_1_def nat_mult_distrib nat_div_distrib)
qed

lemma and_not_1_round: "and_not_1 x = round_down_even x"
  by (simp add: and_not_1_eq round_down_even_def)

lemma round_down_even_props [simp]:
  "even (round_down_even n)" "round_down_even n \<le> n"
  by (simp_all add: round_down_even_def)

lemma round_down_even_mono: "a \<le> b \<Longrightarrow> round_down_even a \<le> round_down_even b"
  by (simp add: round_down_even_def div_le_mono)

lemma round_down_even_ge: "n \<le> Suc (round_down_even n)"
  unfolding round_down_even_def by presburger

lemma filter_even_step:
  "even i \<Longrightarrow> even stop \<Longrightarrow> i < stop \<Longrightarrow>
   filter even [i..<stop] = i # filter even [i + 2..<stop]"
proof -
  assume e: "even i" "even stop" and l: "i < stop"
  then have "Suc i < stop" by (metis Suc_lessI even_Suc)
  then have "[i..<stop] = i # Suc i # [i + 2..<stop]"
    using l by (simp add: upt_rec [of i] upt_rec [of "Suc i"])
  then show ?thesis using e by simp
qed

lemma scan_loop_reference:
  assumes "even i" "even stop" "stop \<le> length data"
    and "\<And>j. i \<le> j \<Longrightarrow> j < stop \<Longrightarrow>
           (if j < normalizeAt then maskSmallShifted c else maskLargeShifted c) = ms
           \<and> (if j < normalizeAt then maskSmall c else maskLarge c) = m"
  shows "scan_loop (gear c) (gearShifted c) ms m data i stop fp =
          (case reference_scan c data normalizeAt fp (filter even [i..<stop]) of
             Inl (j, f) \<Rightarrow> Boundary j f
           | Inr f \<Rightarrow> NoBoundary f)"
  using assms
proof (induction "gear c" "gearShifted c" ms m data i stop fp rule: scan_loop.induct)
  case (1 mskShifted msk data i stop fingerprint)
  show ?case
  proof (cases "i < stop")
    case False
    then show ?thesis by (simp add: scan_loop.simps)
  next
    case True
    with "1.prems" have s: "Suc i < stop" by (metis Suc_lessI even_Suc)
    have f: "filter even [i..<stop] = i # filter even [i + 2..<stop]"
      using "1.prems" True by (simp add: filter_even_step)
    have msk: "(if i < normalizeAt then maskSmallShifted c else maskLargeShifted c) = mskShifted"
      "(if i < normalizeAt then maskSmall c else maskLarge c) = msk"
      using "1.prems"(4) [of i] True by simp_all
    have rec: "\<And>j. i + 2 \<le> j \<Longrightarrow> j < stop \<Longrightarrow>
           (if j < normalizeAt then maskSmallShifted c else maskLargeShifted c) = mskShifted
           \<and> (if j < normalizeAt then maskSmall c else maskLarge c) = msk"
      using "1.prems"(4) by simp
    show ?thesis
      using True s "1.prems"(1-3) "1.hyps" [OF True _ refl _ _ refl] rec
      apply (subst scan_loop.simps)
      apply (simp only: f reference_scan.simps msk Let_def)
      apply (auto simp: Let_def)
      done
  qed
qed


lemma reference_scan_append:
  "reference_scan c d n fp (xs @ ys) =
     (case reference_scan c d n fp xs of
        Inl b \<Rightarrow> Inl b
      | Inr f \<Rightarrow> reference_scan c d n f ys)"
  by (induction xs arbitrary: fp) (simp_all add: Let_def)

lemma filter_even_split:
  "a \<le> b \<Longrightarrow> b \<le> c \<Longrightarrow>
   filter even [a..<c] = filter even [a..<b] @ filter even [b..<c]"
proof -
  assume "a \<le> b" "b \<le> c"
  then have "[a..<c] = [a..<b] @ [b..<c]"
    using upt_add_eq_append [of a b "c - b"] by simp
  then show ?thesis by simp
qed

lemma reference_scan_boundary:
  "reference_scan c d n fp ps = Inl (j, f) \<Longrightarrow> \<exists>p \<in> set ps. j = p \<or> j = p + 1"
  by (induction ps arbitrary: fp) (auto simp: Let_def split: if_splits)

lemma reference_scan_cong:
  "(\<And>p. p \<in> set ps \<Longrightarrow> d ! p = d' ! p \<and> d ! (p + 1) = d' ! (p + 1)) \<Longrightarrow>
   reference_scan c d n fp ps = reference_scan c d' n fp ps"
  by (induction ps arbitrary: fp) (simp_all add: Let_def)

lemma reference_scan_config:
  "same_config c c' \<Longrightarrow> reference_scan c d n fp ps = reference_scan c' d n fp ps"
  by (induction ps arbitrary: fp) (simp_all add: Let_def same_config_def)

lemma cut_short: "length data \<le> minSize c \<Longrightarrow> cut c data = Inr (length data, 0)"
  by (simp add: cut_def)

lemma cut_is_reference:
  assumes ok: "config_ok c" and len: "minSize c < length data"
  shows "cut c data = Inr (reference_cut c data)"
proof -
  define maxB where "maxB = min (length data) (maxSize c)"
  define nB where "nB = min maxB (normalizeSize c)"
  define start where "start = round_down_even (minSize c)"
  define nAt where "nAt = round_down_even nB"
  define stop where "stop = round_down_even maxB"
  from ok len have mB: "minSize c < maxB" "maxB \<le> length data" "0 < maxB"
    by (auto simp: config_ok_def maxB_def)
  from ok mB have nBs: "minSize c \<le> nB" "nB \<le> maxB"
    by (auto simp: config_ok_def nB_def)
  have "stop \<le> maxB" by (simp add: stop_def)
  with mB have "stop \<le> length data" by linarith
  moreover have "start \<le> nAt" "nAt \<le> stop"
    using nBs by (auto simp: start_def nAt_def stop_def intro: round_down_even_mono)
  ultimately have order: "start \<le> nAt" "nAt \<le> stop" "stop \<le> length data"
    by simp_all
  have ev: "even start" "even nAt" "even stop"
    by (simp_all add: start_def nAt_def stop_def)
  have p1: "scan_loop (gear c) (gearShifted c) (maskSmallShifted c) (maskSmall c) data start nAt fp =
          (case reference_scan c data nAt fp (filter even [start..<nAt]) of
             Inl (j, f) \<Rightarrow> Boundary j f | Inr f \<Rightarrow> NoBoundary f)" for fp
    using ev order by (intro scan_loop_reference) auto
  have p2: "scan_loop (gear c) (gearShifted c) (maskLargeShifted c) (maskLarge c) data nAt stop fp =
          (case reference_scan c data nAt fp (filter even [nAt..<stop]) of
             Inl (j, f) \<Rightarrow> Boundary j f | Inr f \<Rightarrow> NoBoundary f)" for fp
    using ev order by (intro scan_loop_reference) auto
  have pos: "filter even [start..<stop] = filter even [start..<nAt] @ filter even [nAt..<stop]"
    using order by (intro filter_even_split)
  have e1: "(if length data > maxSize c then maxSize c else length data) = maxB"
    by (simp add: maxB_def min_def)
  have e2: "(if maxB < normalizeSize c then maxB else normalizeSize c) = nB"
    by (simp add: nB_def min_def)
  have c: "cut c data =
     (case scan_loop (gear c) (gearShifted c) (maskSmallShifted c) (maskSmall c) data start nAt 0 of
        OutOfRange \<Rightarrow> Inl RuntimePanic
      | Boundary i fp \<Rightarrow> Inr (i, fp)
      | NoBoundary fp \<Rightarrow>
          (case scan_loop (gear c) (gearShifted c) (maskLargeShifted c) (maskLarge c) data nAt stop fp of
             OutOfRange \<Rightarrow> Inl RuntimePanic
           | Boundary i fp' \<Rightarrow> Inr (i, fp')
           | NoBoundary fp' \<Rightarrow> Inr (maxB, fp')))"
    unfolding cut_def Let_def e1 e2 and_not_1_round start_def nAt_def stop_def
    using len mB(3) by simp
  have r: "reference_cut c data =
     (case reference_scan c data nAt 0 (filter even [start..<stop]) of
        Inl boundary \<Rightarrow> boundary | Inr fingerprint \<Rightarrow> (maxB, fingerprint))"
    unfolding reference_cut_def Let_def maxB_def nB_def start_def nAt_def stop_def ..
  show ?thesis
    unfolding c r p1 p2 pos reference_scan_append
    by (simp split: sum.splits prod.splits)
qed

lemma reference_cut_bounds:
  assumes ok: "config_ok c" and len: "minSize c < length data"
  shows "round_down_even (minSize c) \<le> fst (reference_cut c data)"
    and "fst (reference_cut c data) \<le> min (length data) (maxSize c)"
proof -
  define maxB where "maxB = min (length data) (maxSize c)"
  define start where "start = round_down_even (minSize c)"
  define stop where "stop = round_down_even maxB"
  from ok len have mB: "minSize c < maxB" by (auto simp: config_ok_def maxB_def)
  have "start \<le> minSize c" by (simp add: start_def)
  with mB have s: "start \<le> maxB" by linarith
  define nAt where "nAt = round_down_even (min maxB (normalizeSize c))"
  have r: "reference_cut c data =
     (case reference_scan c data nAt 0 (filter even [start..<stop]) of
        Inl boundary \<Rightarrow> boundary | Inr fingerprint \<Rightarrow> (maxB, fingerprint))"
    unfolding reference_cut_def Let_def maxB_def start_def stop_def nAt_def ..
  have "start \<le> fst (reference_cut c data) \<and> fst (reference_cut c data) \<le> maxB"
  proof (cases "reference_scan c data nAt 0 (filter even [start..<stop])")
    case (Inr f)
    then show ?thesis using r s by simp
  next
    case (Inl b)
    obtain j f where b: "b = (j, f)" by (cases b)
    from Inl b obtain p where p: "p \<in> set (filter even [start..<stop])" "j = p \<or> j = p + 1"
      using reference_scan_boundary by blast
    then have "even p" "start \<le> p" "p < stop" by auto
    moreover have "even stop" "stop \<le> maxB" by (simp_all add: stop_def)
    ultimately have "start \<le> j" "j \<le> maxB"
      using p(2) by (auto simp: less_eq_Suc_le)
    then show ?thesis using r Inl b by simp
  qed
  then show "round_down_even (minSize c) \<le> fst (reference_cut c data)"
    and "fst (reference_cut c data) \<le> min (length data) (maxSize c)"
    by (simp_all add: start_def maxB_def)
qed

lemma cut_result:
  assumes ok: "config_ok c" and ne: "data \<noteq> []"
  shows "\<exists>len fp. cut c data = Inr (len, fp) \<and> 0 < len \<and> len \<le> length data
           \<and> len \<le> maxSize c
           \<and> (minSize c < length data \<longrightarrow> round_down_even (minSize c) \<le> len)"
proof (cases "length data \<le> minSize c")
  case True
  then show ?thesis using ok ne by (simp add: cut_short config_ok_def)
next
  case False
  then have len: "minSize c < length data" by simp
  from ok have "64 \<le> minSize c" by (simp add: config_ok_def)
  then have "0 < round_down_even (minSize c)"
    unfolding round_down_even_def by presburger
  with reference_cut_bounds [OF ok len] cut_is_reference [OF ok len]
  show ?thesis by (cases "reference_cut c data") auto
qed

lemma reference_cut_take:
  assumes ok: "config_ok c" and n: "maxSize c \<le> n" and len: "n < length data"
  shows "reference_cut c (take n data) = reference_cut c data"
proof -
  have m: "min (length (take n data)) (maxSize c) = min (length data) (maxSize c)"
    using n len by simp
  define stop where "stop = round_down_even (min (length data) (maxSize c))"
  have "stop \<le> min (length data) (maxSize c)"
    unfolding stop_def by (rule round_down_even_props(2))
  with n have sn: "stop \<le> n" by linarith
  have "reference_scan c (take n data) k 0 (filter even [s..<stop])
        = reference_scan c data k 0 (filter even [s..<stop])" for k s
  proof (rule reference_scan_cong)
    fix p assume "p \<in> set (filter even [s..<stop])"
    then have "even p" "p < stop" by auto
    moreover have "even stop" by (simp add: stop_def)
    ultimately have "p + 1 < stop" by (metis Suc_eq_plus1 Suc_lessI even_Suc)
    with sn show "take n data ! p = data ! p \<and> take n data ! (p + 1) = data ! (p + 1)"
      by simp
  qed
  then show ?thesis
    unfolding reference_cut_def m Let_def stop_def by simp
qed

lemma cut_take:
  assumes ok: "config_ok c" and n: "maxSize c \<le> n"
  shows "cut c (take n data) = cut c data"
proof (cases "n < length data")
  case False
  then show ?thesis by simp
next
  case True
  from ok n True have l: "minSize c < length data" "minSize c < length (take n data)"
    by (auto simp: config_ok_def)
  show ?thesis
    using cut_is_reference [OF ok l(1)] cut_is_reference [OF ok l(2)]
      reference_cut_take [OF ok n True] by simp
qed

lemma cut_same_config:
  assumes "same_config c c'"
  shows "cut c data = cut c' data"
proof -
  from assms have eqs: "minSize c = minSize c'" "maxSize c = maxSize c'"
    "normalizeSize c = normalizeSize c'" "maskSmall c = maskSmall c'"
    "maskLarge c = maskLarge c'" "maskSmallShifted c = maskSmallShifted c'"
    "maskLargeShifted c = maskLargeShifted c'" "gear c = gear c'"
    "gearShifted c = gearShifted c'"
    by (simp_all add: same_config_def)
  show ?thesis unfolding cut_def eqs ..
qed

lemma config_ok_same_config: "same_config c c' \<Longrightarrow> config_ok c = config_ok c'"
  by (simp add: config_ok_def same_config_def)

section \<open>The source and the sliding buffer\<close>

declare ReadAtLeast_loop.simps [simp del]

lemma clean_Cons:
  "clean ((bs, e) # r) \<longleftrightarrow> (e = None \<and> clean r) \<or> (e = Some EOF \<and> r = [])"
  by (cases r) auto

lemma stream_of_simps [simp]:
  "stream_of [] = []"
  "stream_of ((bs, e) # r) = bs @ stream_of r"
  by (simp_all add: stream_of_def)

lemma Read_length: "Read n r = (bs, e, r') \<Longrightarrow> length bs \<le> n"
  by (cases r) (auto split: if_splits)

lemma ReadAtLeast_loop_length:
  "ReadAtLeast_loop m r acc = (bs, e, r') \<Longrightarrow> length acc \<le> m \<Longrightarrow> length bs \<le> m"
proof (induction m r acc rule: ReadAtLeast_loop.induct)
  case (1 m r acc)
  show ?case
  proof (cases "length acc < m")
    case False
    with "1.prems" show ?thesis by (simp add: ReadAtLeast_loop.simps)
  next
    case True
    obtain x e1 r1 where rd: "Read (m - length acc) r = (x, e1, r1)"
      by (cases "Read (m - length acc) r") auto
    then have lx: "length x \<le> m - length acc" by (rule Read_length)
    show ?thesis
    proof (cases e1)
      case None
      with "1.prems" True rd have "ReadAtLeast_loop m r1 (acc @ x) = (bs, e, r')"
        by (simp add: ReadAtLeast_loop.simps)
      moreover have "length (acc @ x) \<le> m" using lx True by simp
      ultimately show ?thesis
        using "1.IH" [OF True rd [symmetric] refl] None by simp
    next
      case (Some err)
      with "1.prems" True rd have "bs = acc @ x"
        by (simp add: ReadAtLeast_loop.simps)
      then show ?thesis using lx True by simp
    qed
  qed
qed

lemma ReadFull_length: "ReadFull m r = (bs, e, r') \<Longrightarrow> length bs \<le> m"
proof -
  assume a: "ReadFull m r = (bs, e, r')"
  obtain bs0 e0 r0 where l: "ReadAtLeast_loop m r [] = (bs0, e0, r0)"
    by (cases "ReadAtLeast_loop m r []") auto
  from ReadAtLeast_loop_length [OF l] have "length bs0 \<le> m" by simp
  with a l show ?thesis by (auto simp: ReadFull_def split: if_splits)
qed

lemma ReadAtLeast_loop_clean:
  "clean r \<Longrightarrow> length acc \<le> m \<Longrightarrow> ReadAtLeast_loop m r acc = (bs, err, r') \<Longrightarrow>
   bs = acc @ take (m - length acc) (stream_of r) \<and> clean r'
   \<and> stream_of r' = drop (m - length acc) (stream_of r)
   \<and> (err = None \<or> err = Some EOF) \<and> (length bs < m \<longrightarrow> err = Some EOF)"
proof (induction r arbitrary: acc)
  case Nil
  then show ?case
    by (subst (asm) ReadAtLeast_loop.simps) (auto split: if_splits)
next
  case (Cons ev r)
  obtain b0 e where ev: "ev = (b0, e)" by (cases ev)
  show ?case
  proof (cases "length acc < m")
    case False
    with Cons.prems show ?thesis
      by (subst (asm) ReadAtLeast_loop.simps) auto
  next
    case True
    define n where "n = m - length acc"
    show ?thesis
    proof (cases "length b0 \<le> n")
      case fits: True
      show ?thesis
      proof (cases e)
        case None
        with Cons.prems(3) True fits ev
        have l: "ReadAtLeast_loop m r (acc @ b0) = (bs, err, r')"
          by (subst (asm) ReadAtLeast_loop.simps) (simp add: n_def)
        have "clean r" using Cons.prems(1) ev None by (simp add: clean_Cons)
        moreover have "length (acc @ b0) \<le> m" using fits True by (simp add: n_def)
        ultimately show ?thesis
          using Cons.IH [OF _ _ l] fits ev by (simp add: n_def)
      next
        case (Some x)
        with Cons.prems(1) ev have x: "x = EOF" "r = []" by (auto simp: clean_Cons)
        with Cons.prems(3) True fits ev Some show ?thesis
          by (subst (asm) ReadAtLeast_loop.simps) (auto simp: n_def)
      qed
    next
      case False
      then have "length (acc @ take n b0) = m" using True by (simp add: n_def)
      with Cons.prems(3) True False ev
      have "bs = acc @ take n b0" "err = None" "r' = (drop n b0, e) # r"
        by (subst (asm) ReadAtLeast_loop.simps, subst (asm) ReadAtLeast_loop.simps,
            simp add: n_def)+
      then show ?thesis
        using Cons.prems(1) ev False True by (auto simp: clean_Cons n_def)
    qed
  qed
qed

lemma ReadFull_clean:
  assumes "clean r" and "ReadFull m r = (bs, err, r')"
  shows "bs = take m (stream_of r)" and "clean r'"
    and "m \<le> length (stream_of r) \<Longrightarrow> err = None \<and> stream_of r' = drop m (stream_of r)"
    and "length (stream_of r) < m \<Longrightarrow> err = Some EOF \<or> err = Some ErrUnexpectedEOF"
proof -
  obtain bs0 e0 r0 where l: "ReadAtLeast_loop m r [] = (bs0, e0, r0)"
    by (cases "ReadAtLeast_loop m r []") auto
  from ReadAtLeast_loop_clean [OF assms(1) _ l]
  have f: "bs0 = take m (stream_of r)" "clean r0" "stream_of r0 = drop m (stream_of r)"
    "e0 = None \<or> e0 = Some EOF" "length bs0 < m \<longrightarrow> e0 = Some EOF"
    by simp_all
  from assms(2) l have r: "bs = bs0" "r' = r0"
    by (auto simp: ReadFull_def split: if_splits)
  show "bs = take m (stream_of r)" "clean r'" using f r by simp_all
  show "err = None \<and> stream_of r' = drop m (stream_of r)" if "m \<le> length (stream_of r)"
    using that assms(2) l f r by (auto simp: ReadFull_def split: if_splits)
  show "err = Some EOF \<or> err = Some ErrUnexpectedEOF" if "length (stream_of r) < m"
    using that assms(2) l f by (auto simp: ReadFull_def split: if_splits)
qed


lemma window_length:
  "bufCursor c \<le> bufEnd c \<Longrightarrow> bufEnd c \<le> length (buf c) \<Longrightarrow>
   length (window c) = bufEnd c - bufCursor c"
  by (simp add: window_def)

lemma fillBuffer_noop:
  "bufCursor c \<le> bufEnd c \<Longrightarrow> maxSize c \<le> bufEnd c - bufCursor c \<Longrightarrow>
   fillBuffer c = (None, c)"
  by (simp add: fillBuffer_def Let_def)

lemma fillBuffer_eof:
  "bufCursor c \<le> bufEnd c \<Longrightarrow> bufEnd c \<le> length (buf c) \<Longrightarrow>
   bufEnd c - bufCursor c < maxSize c \<Longrightarrow> readerEOF c \<Longrightarrow>
   fillBuffer c =
     (None, c\<lparr>buf := window c @ drop (bufEnd c - bufCursor c) (buf c),
              bufCursor := 0, bufEnd := bufEnd c - bufCursor c\<rparr>)"
  by (simp add: fillBuffer_def Let_def window_def)

lemma fillBuffer_read:
  assumes "bufCursor c \<le> bufEnd c" "bufEnd c \<le> length (buf c)"
    and "bufEnd c - bufCursor c < maxSize c" "\<not> readerEOF c"
    and "ReadFull (length (buf c) - (bufEnd c - bufCursor c)) (reader c) = (bs, err, r')"
  shows "fillBuffer c =
     (if err = Some EOF \<or> err = Some ErrUnexpectedEOF
      then (None, c\<lparr>buf := window c @ bs
                          @ drop (bufEnd c - bufCursor c + length bs) (buf c),
                    bufCursor := 0, reader := r',
                    bufEnd := bufEnd c - bufCursor c + length bs, readerEOF := True\<rparr>)
      else (err, c\<lparr>buf := window c @ bs
                          @ drop (bufEnd c - bufCursor c + length bs) (buf c),
                    bufCursor := 0, reader := r'\<rparr>))"
proof -
  define a where "a = bufEnd c - bufCursor c"
  have la: "length (window c) = a" using assms(1,2) by (simp add: window_length a_def)
  have src: "take a (drop (bufCursor c) (buf c)) = window c" by (simp add: window_def a_def)
  have d: "drop (a + length bs) (window c @ drop a (buf c)) = drop (a + length bs) (buf c)"
    using la by (simp add: add.commute)
  have t: "take a (window c @ drop a (buf c)) = window c" using la by simp
  have lb: "length (window c @ drop a (buf c)) = length (buf c)"
    using la assms(1,2) by (simp add: a_def)
  have al: "\<not> length (buf c) < a" using assms(1,2) by (simp add: a_def)
  show ?thesis
    using assms al
    unfolding fillBuffer_def Let_def a_def [symmetric]
    by (simp add: src la lb d t add.commute)
qed

lemma fillBuffer_inv:
  assumes inv: "chunker_inv c"
  shows "\<exists>c1. fillBuffer c = (None, c1) \<and> chunker_inv c1 \<and> same_config c1 c
           \<and> pending c1 = pending c \<and> streamPos c1 = streamPos c
           \<and> (maxSize c \<le> length (window c1) \<or> readerEOF c1)
           \<and> (bufEnd c1 = 0 \<longleftrightarrow> pending c = [])"
proof -
  define a where "a = bufEnd c - bufCursor c"
  define L where "L = length (buf c)"
  from inv have ok: "config_ok c" and b: "bufCursor c \<le> bufEnd c" "bufEnd c \<le> length (buf c)"
    and e: "readerEOF c \<or> (bufEnd c = length (buf c) \<and> clean (reader c))"
    by (auto simp: chunker_inv_def)
  from ok have sizes: "0 < maxSize c" "maxSize c < L" by (auto simp: config_ok_def L_def)
  have la: "length (window c) = a" using b by (simp add: window_length a_def)
  have aL: "a \<le> L" using b by (simp add: a_def L_def)
  show ?thesis
  proof (cases "maxSize c \<le> a")
    case True
    then have "fillBuffer c = (None, c)" using b by (simp add: fillBuffer_noop a_def)
    moreover have "bufEnd c \<noteq> 0" using True sizes by (simp add: a_def)
    moreover have "pending c \<noteq> []" using True sizes la by (auto simp: pending_def)
    ultimately show ?thesis using inv True la by (auto simp: same_config_def)
  next
    case False
    then have small: "bufEnd c - bufCursor c < maxSize c" by (simp add: a_def)
    show ?thesis
    proof (cases "readerEOF c")
      case True
      define c1 where "c1 = c\<lparr>buf := window c @ drop a (buf c), bufCursor := 0, bufEnd := a\<rparr>"
      have f: "fillBuffer c = (None, c1)"
        using fillBuffer_eof [OF b small True] by (simp add: c1_def a_def)
      have w1: "window c1 = window c"
        using la by (subst window_def) (simp add: c1_def)
      have "chunker_inv c1"
        using ok True la aL by (simp add: chunker_inv_def config_ok_def c1_def L_def)
      moreover have "same_config c1 c" using la aL by (simp add: same_config_def c1_def L_def)
      moreover have "pending c1 = pending c" using w1 True by (simp add: pending_def c1_def)
      moreover have "bufEnd c1 = 0 \<longleftrightarrow> pending c = []"
        using True by (simp add: pending_def c1_def la [symmetric])
      ultimately show ?thesis using f True by (simp add: c1_def)
    next
      case False
      with e have full: "bufEnd c = length (buf c)" and cl: "clean (reader c)" by simp_all
      obtain bs err r' where rf: "ReadFull (L - a) (reader c) = (bs, err, r')"
        by (cases "ReadFull (L - a) (reader c)") auto
      note rc = ReadFull_clean [OF cl rf]
      have lbs: "length bs \<le> L - a" using rf by (rule ReadFull_length)
      define buf2 where "buf2 = window c @ bs @ drop (a + length bs) (buf c)"
      have lb2: "length buf2 = L" using la lbs aL by (simp add: buf2_def L_def)
      have fb: "fillBuffer c =
         (if err = Some EOF \<or> err = Some ErrUnexpectedEOF
          then (None, c\<lparr>buf := buf2, bufCursor := 0, reader := r',
                        bufEnd := a + length bs, readerEOF := True\<rparr>)
          else (err, c\<lparr>buf := buf2, bufCursor := 0, reader := r'\<rparr>))"
        using fillBuffer_read [OF b small False, of bs err r'] rf
        by (simp add: a_def L_def buf2_def)
      show ?thesis
      proof (cases "L - a \<le> length (stream_of (reader c))")
        case enough: True
        then have en: "err = None" and rest: "stream_of r' = drop (L - a) (stream_of (reader c))"
          using rc(3) by simp_all
        have lbs': "length bs = L - a" using rc(1) enough by simp
        define c1 where "c1 = c\<lparr>buf := buf2, bufCursor := 0, reader := r'\<rparr>"
        have f: "fillBuffer c = (None, c1)" using fb en by (simp add: c1_def)
        have b2: "buf2 = window c @ bs" using lbs' aL by (simp add: buf2_def L_def)
        have w1: "window c1 = window c @ bs"
          using full lb2 b2 by (subst window_def) (simp add: c1_def L_def)
        have "chunker_inv c1"
          using ok full lb2 False rc(2)
          by (simp add: chunker_inv_def config_ok_def c1_def L_def)
        moreover have "same_config c1 c" using lb2 by (simp add: same_config_def c1_def L_def)
        moreover have "pending c1 = pending c"
          using w1 False rest rc(1) by (simp add: pending_def c1_def)
        moreover have "maxSize c \<le> length (window c1)"
          using w1 la lbs' aL sizes by simp
        moreover have "bufEnd c1 \<noteq> 0" using full sizes by (auto simp: c1_def L_def)
        moreover have "pending c \<noteq> []"
          using enough sizes aL la False by (auto simp: pending_def)
        ultimately show ?thesis using f by (simp add: c1_def)
      next
        case short: False
        then have er: "err = Some EOF \<or> err = Some ErrUnexpectedEOF" using rc(4) by simp
        have bs: "bs = stream_of (reader c)" using rc(1) short by simp
        define c1 where "c1 = c\<lparr>buf := buf2, bufCursor := 0, reader := r',
                               bufEnd := a + length bs, readerEOF := True\<rparr>"
        have f: "fillBuffer c = (None, c1)" using fb er by (auto simp: c1_def)
        have w1: "window c1 = window c @ bs"
          using la by (subst window_def) (simp add: c1_def buf2_def)
        have "chunker_inv c1"
          using ok lb2 lbs aL
          by (simp add: chunker_inv_def config_ok_def c1_def L_def)
        moreover have "same_config c1 c" using lb2 by (simp add: same_config_def c1_def L_def)
        moreover have "pending c1 = pending c"
          using w1 False bs by (simp add: pending_def c1_def)
        moreover have "bufEnd c1 = 0 \<longleftrightarrow> pending c = []"
          using False bs by (auto simp: pending_def c1_def la [symmetric])
        ultimately show ?thesis using f by (simp add: c1_def)
      qed
    qed
  qed
qed

section \<open>One call of Next, and the whole run\<close>

declare chunks_of.simps [simp del]

lemma chunks_of_Nil [simp]: "chunks_of c off [] = []"
  by (simp add: chunks_of.simps)

lemma chunks_of_step:
  "cut c rest = Inr (len, fp) \<Longrightarrow> 0 < len \<Longrightarrow> len \<le> length rest \<Longrightarrow>
   chunks_of c off rest =
     \<lparr>Offset = off, Length = len, Data = take len rest, Fingerprint = fp\<rparr>
     # chunks_of c (wrap64 (off + int len)) (drop len rest)"
  by (subst chunks_of.simps) auto

lemma chunks_of_same_config:
  "same_config c c' \<Longrightarrow> chunks_of c off rest = chunks_of c' off rest"
proof (induction c off rest rule: chunks_of.induct)
  case (1 c off rest)
  show ?case
  proof (cases "rest = []")
    case True
    then show ?thesis by simp
  next
    case False
    have cc: "cut c' rest = cut c rest" using "1.prems" by (simp add: cut_same_config)
    show ?thesis
    proof (cases "cut c rest")
      case (Inl e)
      then show ?thesis using cc False
        by (subst chunks_of.simps, subst (2) chunks_of.simps) simp
    next
      case (Inr p)
      obtain len fp where p: "p = (len, fp)" by (cases p)
      show ?thesis
      proof (cases "len = 0 \<or> length rest < len")
        case True
        then show ?thesis using cc False Inr p
          by (subst chunks_of.simps, subst (2) chunks_of.simps) auto
      next
        case ok: False
        have "chunks_of c (wrap64 (off + int len)) (drop len rest)
              = chunks_of c' (wrap64 (off + int len)) (drop len rest)"
          using "1.IH" [OF False Inr p [symmetric] ok "1.prems"] .
        then show ?thesis using cc False Inr p ok
          by (subst chunks_of.simps, subst (2) chunks_of.simps) auto
      qed
    qed
  qed
qed

lemma Next_empty:
  assumes inv: "chunker_inv c" and e: "pending c = []"
  shows "\<exists>c1. Next c = (Inl EOF, c1) \<and> chunker_inv c1 \<and> same_config c1 c
           \<and> pending c1 = [] \<and> streamPos c1 = streamPos c"
proof -
  from fillBuffer_inv [OF inv] obtain c1 where c1: "fillBuffer c = (None, c1)"
    "chunker_inv c1" "same_config c1 c" "pending c1 = pending c" "streamPos c1 = streamPos c"
    "bufEnd c1 = 0 \<longleftrightarrow> pending c = []"
    by auto
  with e have "Next c = (Inl EOF, c1)" by (simp add: Next_def)
  with c1 e show ?thesis by simp
qed

lemma Next_chunk:
  assumes inv: "chunker_inv c" and ne: "pending c \<noteq> []"
  shows "\<exists>len fp c1 c2. fillBuffer c = (None, c1)
           \<and> cut c (pending c) = Inr (len, fp) \<and> cut c (window c1) = Inr (len, fp)
           \<and> (maxSize c \<le> length (window c1) \<or> window c1 = pending c)
           \<and> 0 < len \<and> len \<le> length (window c1) \<and> len \<le> length (pending c)
           \<and> Next c = (Inr \<lparr>Offset = streamPos c, Length = len,
                               Data = take len (pending c), Fingerprint = fp\<rparr>, c2)
           \<and> chunker_inv c2 \<and> same_config c2 c \<and> pending c2 = drop len (pending c)
           \<and> streamPos c2 = wrap64 (streamPos c + int len)"
proof -
  from fillBuffer_inv [OF inv] obtain c1 where c1: "fillBuffer c = (None, c1)"
    "chunker_inv c1" "same_config c1 c" "pending c1 = pending c" "streamPos c1 = streamPos c"
    "maxSize c \<le> length (window c1) \<or> readerEOF c1"
    "bufEnd c1 = 0 \<longleftrightarrow> pending c = []"
    by auto
  define W where "W = window c1"
  define rest where "rest = (if readerEOF c1 then [] else stream_of (reader c1))"
  have p: "pending c = W @ rest" using c1(4) by (simp add: pending_def W_def rest_def)
  from inv have ok: "config_ok c" by (simp add: chunker_inv_def)
  from c1(2) have b1: "bufCursor c1 \<le> bufEnd c1" "bufEnd c1 \<le> length (buf c1)"
    by (simp_all add: chunker_inv_def)
  have lW: "length W = bufEnd c1 - bufCursor c1" using b1 by (simp add: W_def window_length)
  have big: "maxSize c \<le> length W \<or> rest = []" using c1(6) by (auto simp: W_def rest_def)
  have Wne: "W \<noteq> []"
  proof
    assume "W = []"
    with big ok have "rest = []" by (auto simp: config_ok_def)
    with \<open>W = []\<close> p ne show False by simp
  qed
  have cW: "cut c W = cut c (pending c)"
  proof (cases "rest = []")
    case True
    then show ?thesis using p by simp
  next
    case False
    with big have "maxSize c \<le> length W" by simp
    from cut_take [OF ok this, of "pending c"] show ?thesis using p by simp
  qed
  from cut_result [OF ok Wne] obtain len fp where cr: "cut c W = Inr (len, fp)"
    "0 < len" "len \<le> length W"
    by blast
  have c1W: "cut c1 (take (bufEnd c1 - bufCursor c1) (drop (bufCursor c1) (buf c1))) = Inr (len, fp)"
    using cr(1) cut_same_config [OF c1(3), of W] by (simp add: W_def window_def)
  define c2 where "c2 = c1\<lparr>bufCursor := bufCursor c1 + len,
                            streamPos := wrap64 (streamPos c1 + int len)\<rparr>"
  have fit: "bufCursor c1 + len \<le> bufEnd c1" using cr(3) lW b1 by simp
  have data: "take len (drop (bufCursor c1) (buf c1)) = take len (pending c)"
  proof -
    have "take len W = take len (drop (bufCursor c1) (buf c1))"
      using cr(3) lW by (simp add: W_def window_def min_def)
    moreover have "take len (pending c) = take len W" using p cr(3) by simp
    ultimately show ?thesis by simp
  qed
  have nx: "Next c = (Inr \<lparr>Offset = streamPos c, Length = len,
                            Data = take len (pending c), Fingerprint = fp\<rparr>, c2)"
    using c1(1,5,7) ne b1 c1W fit data by (simp add: Next_def c2_def)
  have w2: "window c2 = drop len W"
    using fit by (subst window_def) (simp add: c2_def W_def window_def drop_take add.commute)
  have p2: "pending c2 = drop len (pending c)"
    using w2 p cr(3) by (simp add: pending_def c2_def rest_def)
  have inv2: "chunker_inv c2"
    using c1(2) fit by (auto simp: chunker_inv_def config_ok_def c2_def)
  have sc2: "same_config c2 c" using c1(3) by (simp add: same_config_def c2_def)
  have "maxSize c \<le> length (window c1) \<or> window c1 = pending c"
    using big p by (auto simp: W_def)
  moreover have "len \<le> length (pending c)" using cr(3) p by simp
  ultimately show ?thesis
    using c1(1,5) cW cr nx w2 p2 inv2 sc2 by (auto simp: W_def c2_def)
qed

lemma drain_chunks:
  "chunker_inv c \<Longrightarrow> length (pending c) < n \<Longrightarrow>
   \<exists>c'. drain n c = Some (chunks_of c (streamPos c) (pending c), EOF, c')
        \<and> chunker_inv c' \<and> same_config c' c \<and> pending c' = []"
proof (induction n arbitrary: c)
  case 0
  then show ?case by simp
next
  case (Suc n)
  show ?case
  proof (cases "pending c = []")
    case True
    from Next_empty [OF Suc.prems(1) True] show ?thesis using True by auto
  next
    case False
    from Next_chunk [OF Suc.prems(1) False] obtain len fp c2 where
      s: "cut c (pending c) = Inr (len, fp)" "0 < len" "len \<le> length (pending c)"
        "Next c = (Inr \<lparr>Offset = streamPos c, Length = len,
                         Data = take len (pending c), Fingerprint = fp\<rparr>, c2)"
        "chunker_inv c2" "same_config c2 c" "pending c2 = drop len (pending c)"
        "streamPos c2 = wrap64 (streamPos c + int len)"
      by blast
    have "length (pending c2) < n" using s(2,3,7) Suc.prems(2) by simp
    from Suc.IH [OF s(5) this] obtain c' where
      d: "drain n c2 = Some (chunks_of c2 (streamPos c2) (pending c2), EOF, c')"
        "chunker_inv c'" "same_config c' c2" "pending c' = []"
      by blast
    have "chunks_of c2 (streamPos c2) (pending c2)
          = chunks_of c (wrap64 (streamPos c + int len)) (drop len (pending c))"
      using s(6,7,8) chunks_of_same_config by simp
    moreover have "same_config c' c" using d(3) s(6) by (simp add: same_config_def)
    ultimately show ?thesis
      using d s(4) chunks_of_step [OF s(1,2,3), of "streamPos c"] by simp
  qed
qed

section \<open>Construction, reset and reachable states\<close>

lemma wrap64_id: "- (2 ^ 63) \<le> x \<Longrightarrow> x < 2 ^ 63 \<Longrightarrow> wrap64 x = x"
  by (simp add: wrap64_def signed_take_bit_int_eq_self)

lemma NewChunker_config_ok:
  assumes "NewChunker rd averageSize opts = Inr c"
  shows "config_ok c"
proof -
  from assms have "validate (resolve averageSize opts) = None"
    using NewChunker_Inr_iff by blast
  then show ?thesis
    using NewChunker_InrD(1-4) [OF assms]
    unfolding validate_None_iff config_ok_def by simp linarith
qed

lemma NewChunker_fresh:
  assumes "NewChunker rd averageSize opts = Inr c" and "clean rd"
  shows "chunker_inv c" and "pending c = stream_of rd" and "streamPos c = 0"
  using NewChunker_config_ok [OF assms(1)] NewChunker_InrD(4-9) [OF assms(1)] assms(2)
  by (simp_all add: chunker_inv_def pending_def window_def)

lemma NewChunker_same_config:
  "NewChunker rd averageSize opts = Inr c \<Longrightarrow> NewChunker rd' averageSize opts = Inr c' \<Longrightarrow>
   same_config c c'"
  by (auto simp: NewChunker_def Let_def same_config_def split: option.splits if_splits)

lemma same_config_refl [simp]: "same_config c c"
  by (simp add: same_config_def)

lemma same_config_sym: "same_config c c' \<Longrightarrow> same_config c' c"
  by (simp add: same_config_def)

lemma same_config_trans: "same_config a b \<Longrightarrow> same_config b c \<Longrightarrow> same_config a c"
  by (simp add: same_config_def)

lemma Reset_fresh:
  assumes "config_ok c" and "clean rd"
  shows "chunker_inv (Reset c rd)" and "pending (Reset c rd) = stream_of rd"
    and "streamPos (Reset c rd) = 0" and "same_config (Reset c rd) c"
  using assms
  by (simp_all add: chunker_inv_def config_ok_def pending_def window_def Reset_def
      same_config_def)

lemma Reset_same_config: "same_config (Reset c rd) c"
  by (simp add: Reset_def same_config_def)

lemma fillBuffer_same_config: "same_config (snd (fillBuffer c)) c"
proof (cases "bufEnd c < bufCursor c \<or> maxSize c \<le> bufEnd c - bufCursor c
              \<or> bufEnd c - bufCursor c > length (buf c) \<or> bufCursor c > length (buf c)")
  case True
  then show ?thesis by (auto simp: fillBuffer_def Let_def)
next
  case False
  define a where "a = bufEnd c - bufCursor c"
  define src where "src = take a (drop (bufCursor c) (buf c))"
  define buf1 where "buf1 = src @ drop (length src) (buf c)"
  from False have aL: "a \<le> length (buf c)" by (simp add: a_def)
  have l1: "length buf1 = length (buf c)" by (auto simp: buf1_def src_def)
  obtain bs err r' where rf: "ReadFull (length buf1 - a) (reader c) = (bs, err, r')"
    by (cases "ReadFull (length buf1 - a) (reader c)") auto
  have lbs: "length bs \<le> length buf1 - a" using rf by (rule ReadFull_length)
  have l2: "length (take a buf1 @ bs @ drop (a + length bs) buf1) = length (buf c)"
    using l1 aL lbs by simp
  show ?thesis
    using False rf l1 l2
    unfolding fillBuffer_def Let_def a_def [symmetric] src_def [symmetric] buf1_def [symmetric]
    by (simp add: same_config_def)
qed

lemma Next_same_config: "same_config (snd (Next c)) c"
proof -
  have "same_config (snd (fillBuffer c)) c" by (rule fillBuffer_same_config)
  then show ?thesis
    by (auto simp: Next_def same_config_def split: prod.splits option.splits sum.splits)
qed

lemma reachable_same_config: "reachable c0 c \<Longrightarrow> same_config c c0"
proof (induction rule: reachable.induct)
  case (reachable_start c)
  show ?case by simp
next
  case (reachable_Next c c')
  then show ?case using Next_same_config [of c'] same_config_trans by blast
next
  case (reachable_Reset c c' rd)
  then show ?case using Reset_same_config [of c' rd] same_config_trans by blast
qed

lemma reachable_config_ok:
  "NewChunker rd averageSize opts = Inr c0 \<Longrightarrow> reachable c0 c \<Longrightarrow> config_ok c"
  using NewChunker_config_ok reachable_same_config config_ok_same_config by blast

lemma chunks_of_concat:
  "config_ok c \<Longrightarrow> concat (map Data (chunks_of c off rest)) = rest"
proof (induction "length rest" arbitrary: off rest rule: less_induct)
  case less
  show ?case
  proof (cases "rest = []")
    case True
    then show ?thesis by simp
  next
    case False
    from cut_result [OF less.prems False] obtain len fp where
      c: "cut c rest = Inr (len, fp)" "0 < len" "len \<le> length rest"
      by blast
    have "length (drop len rest) < length rest" using c(2,3) by simp
    from less.hyps [OF this less.prems]
    show ?thesis using chunks_of_step [OF c] by simp
  qed
qed

lemma chunks_of_offsets:
  "config_ok c \<Longrightarrow> 0 \<le> off \<Longrightarrow> off + int (length rest) < 2 ^ 63 \<Longrightarrow>
   (chunks_of c off rest \<noteq> [] \<longrightarrow> Offset (hd (chunks_of c off rest)) = off)
   \<and> (\<forall>i. Suc i < length (chunks_of c off rest) \<longrightarrow>
          Offset (chunks_of c off rest ! Suc i)
          = Offset (chunks_of c off rest ! i) + int (Length (chunks_of c off rest ! i)))
   \<and> (\<forall>ch \<in> set (chunks_of c off rest). 0 < Length ch)"
proof (induction "length rest" arbitrary: off rest rule: less_induct)
  case less
  show ?case
  proof (cases "rest = []")
    case True
    then show ?thesis by simp
  next
    case False
    from cut_result [OF less.prems(1) False] obtain len fp where
      c: "cut c rest = Inr (len, fp)" "0 < len" "len \<le> length rest"
      by blast
    define off' where "off' = off + int len"
    define tl' where "tl' = chunks_of c off' (drop len rest)"
    have w: "wrap64 (off + int len) = off'"
      using less.prems(2,3) c(3) by (simp add: off'_def wrap64_id)
    have st: "chunks_of c off rest =
        \<lparr>Offset = off, Length = len, Data = take len rest, Fingerprint = fp\<rparr> # tl'"
      using chunks_of_step [OF c, of off] w by (simp add: tl'_def)
    have "length (drop len rest) < length rest" using c(2,3) by simp
    moreover have "0 \<le> off'" using less.prems(2) by (simp add: off'_def)
    moreover have "off' + int (length (drop len rest)) < 2 ^ 63"
      using less.prems(3) c(3) by (simp add: off'_def)
    ultimately have ih: "tl' \<noteq> [] \<longrightarrow> Offset (hd tl') = off'"
      "\<forall>i. Suc i < length tl' \<longrightarrow> Offset (tl' ! Suc i) = Offset (tl' ! i) + int (Length (tl' ! i))"
      "\<forall>ch \<in> set tl'. 0 < Length ch"
      using less.hyps [of "drop len rest" off'] less.prems(1) by (simp_all add: tl'_def)
    have step: "Offset ((x # tl') ! Suc i) = Offset ((x # tl') ! i) + int (Length ((x # tl') ! i))"
      if "Suc i < length (x # tl')" "Offset x = off" "Length x = len" for i x
    proof (cases i)
      case 0
      with that have "tl' \<noteq> []" by auto
      with ih(1) have "Offset (tl' ! 0) = off'" by (simp add: hd_conv_nth)
      with 0 that show ?thesis by (simp add: off'_def)
    next
      case (Suc j)
      with that ih(2) show ?thesis by simp
    qed
    show ?thesis
      unfolding st using ih(3) c(2) step by auto
  qed
qed

section \<open>Properties of the chunk sequence\<close>

lemma NewChunker_example:
  "NewChunker rd 128 [WithMinSize 64] = Inr (projr (NewChunker rd 128 [WithMinSize 64]))"
proof -
  have "\<not> isl (NewChunker rd 128 [WithMinSize 64])" by (simp add: config_eval)
  then show ?thesis by simp
qed

lemma example_minSize: "minSize (projr (NewChunker rd 128 [WithMinSize 64])) = 64"
  by (simp add: config_eval)

text \<open>
  Claim C1.  For every chunker state reachable from a constructed chunker and every region
  longer than \<open>minSize\<close>, \<^verbatim>\<open>cut\<close> returns the result of the two-phase reference search of
  the specification.
\<close>

theorem cut_refines_reference:
  assumes "NewChunker rd averageSize opts = Inr c0" and "reachable c0 c"
    and "minSize c < length region"
  shows "cut c region = Inr (reference_cut c region)"
  using cut_is_reference [OF reachable_config_ok [OF assms(1,2)] assms(3)] .

theorem cut_refines_reference_witness:
  "cut (projr (NewChunker [] 128 [WithMinSize 64])) (replicate 70 0)
   = Inr (reference_cut (projr (NewChunker [] 128 [WithMinSize 64])) (replicate 70 0))"
  using cut_refines_reference [OF NewChunker_example reachable_start, of "[]" "replicate 70 0"]
  by (simp add: example_minSize)

text \<open>
  Claim C2.  For a source that does not fail and a chunker \<^verbatim>\<open>NewChunker\<close> accepted, the
  caller's loop ends with \<^verbatim>\<open>io.EOF\<close> (any fuel above the content length is enough), and
  the \<open>Data\<close> fields of the chunks, concatenated in order, are the content.  For the
  empty content the first \<^verbatim>\<open>Next\<close> returns \<^verbatim>\<open>io.EOF\<close> and there is no chunk.
\<close>

theorem chunks_reconstruct_input:
  assumes "NewChunker rd averageSize opts = Inr c" and "clean rd"
    and "length (stream_of rd) < n"
  shows "\<exists>chs c'. drain n c = Some (chs, EOF, c')
           \<and> concat (map Data chs) = stream_of rd
           \<and> (stream_of rd = [] \<longrightarrow> chs = [] \<and> fst (Next c) = Inl EOF)"
proof -
  note f = NewChunker_fresh [OF assms(1,2)]
  from drain_chunks [of c n] f assms(3) obtain c' where
    d: "drain n c = Some (chunks_of c 0 (stream_of rd), EOF, c')"
    by auto
  have "concat (map Data (chunks_of c 0 (stream_of rd))) = stream_of rd"
    using NewChunker_config_ok [OF assms(1)] by (rule chunks_of_concat)
  moreover have "fst (Next c) = Inl EOF" if "stream_of rd = []"
    using Next_empty [OF f(1)] f(2) that by auto
  ultimately show ?thesis using d by auto
qed

theorem chunks_reconstruct_input_witness:
  "\<exists>chs c'. drain 4 (projr (NewChunker [([1, 2], None), ([3], Some EOF)] 128 [WithMinSize 64]))
              = Some (chs, EOF, c')
           \<and> concat (map Data chs) = [1, 2, 3]"
  using chunks_reconstruct_input [OF NewChunker_example, of "[([1, 2], None), ([3], Some EOF)]" 4]
  by simp

text \<open>
  Claim C4.  Two chunkers built with the same average size and options over two sources
  that do not fail and deliver the same content, however each source splits it into
  reads, produce the same chunk sequence: same offsets, lengths, fingerprints (and data).
\<close>

theorem chunking_independent_of_reads:
  assumes "NewChunker rd1 averageSize opts = Inr c1" and "NewChunker rd2 averageSize opts = Inr c2"
    and "clean rd1" and "clean rd2" and "stream_of rd1 = stream_of rd2"
    and "length (stream_of rd1) < n1" and "length (stream_of rd2) < n2"
  shows "\<exists>chs c1' c2'. drain n1 c1 = Some (chs, EOF, c1') \<and> drain n2 c2 = Some (chs, EOF, c2')"
proof -
  note f1 = NewChunker_fresh [OF assms(1,3)]
  note f2 = NewChunker_fresh [OF assms(2,4)]
  from drain_chunks [of c1 n1] f1 assms(6) obtain c1' where
    d1: "drain n1 c1 = Some (chunks_of c1 0 (stream_of rd1), EOF, c1')" by auto
  from drain_chunks [of c2 n2] f2 assms(7) obtain c2' where
    d2: "drain n2 c2 = Some (chunks_of c2 0 (stream_of rd2), EOF, c2')" by auto
  have "chunks_of c1 0 (stream_of rd1) = chunks_of c2 0 (stream_of rd2)"
    using chunks_of_same_config [OF NewChunker_same_config [OF assms(1,2)]] assms(5) by simp
  with d1 d2 show ?thesis by simp
qed

theorem chunking_independent_of_reads_witness:
  "\<exists>chs c1' c2'.
     drain 4 (projr (NewChunker [([1, 2, 3], None)] 128 [WithMinSize 64])) = Some (chs, EOF, c1')
     \<and> drain 5 (projr (NewChunker [([1], None), ([], None), ([2, 3], Some EOF)] 128 [WithMinSize 64]))
         = Some (chs, EOF, c2')"
  using chunking_independent_of_reads [OF NewChunker_example NewChunker_example,
      of "[([1, 2, 3], None)]" "[([1], None), ([], None), ([2, 3], Some EOF)]" 4 5]
  by simp

text \<open>
  Claim C5.  For a chunker fresh from \<^verbatim>\<open>NewChunker\<close>, or reset in any reachable state, over
  a source that does not fail: the first chunk has offset 0, each next offset is the
  previous offset plus the previous length, and every length is positive, so offsets
  increase strictly without gap or overlap.  \<open>Offset\<close> is a 64-bit Go \<^verbatim>\<open>int\<close>, so the
  content is taken shorter than \<open>2^63\<close> bytes.
\<close>

theorem offsets_contiguous:
  assumes "NewChunker rd0 averageSize opts = Inr c0"
    and "(c = c0 \<and> rd = rd0) \<or> (\<exists>c'. reachable c0 c' \<and> c = Reset c' rd)"
    and "clean rd" and "length (stream_of rd) < n" and "length (stream_of rd) < 2 ^ 63"
  shows "\<exists>chs c'. drain n c = Some (chs, EOF, c')
           \<and> (chs \<noteq> [] \<longrightarrow> Offset (hd chs) = 0)
           \<and> (\<forall>i. Suc i < length chs \<longrightarrow>
                  Offset (chs ! Suc i) = Offset (chs ! i) + int (Length (chs ! i)))
           \<and> (\<forall>ch \<in> set chs. 0 < Length ch)"
proof -
  have st: "chunker_inv c \<and> pending c = stream_of rd \<and> streamPos c = 0"
    using assms(2)
  proof
    assume "c = c0 \<and> rd = rd0"
    then show ?thesis using NewChunker_fresh [OF assms(1)] assms(3) by simp
  next
    assume "\<exists>c'. reachable c0 c' \<and> c = Reset c' rd"
    then obtain c' where c': "reachable c0 c'" "c = Reset c' rd" by blast
    from reachable_config_ok [OF assms(1) c'(1)] have "config_ok c'" .
    from Reset_fresh(1-3) [OF this assms(3)] c'(2) show ?thesis by simp
  qed
  then have ok: "config_ok c" by (simp add: chunker_inv_def)
  from drain_chunks [of c n] st assms(4) obtain c' where
    d: "drain n c = Some (chunks_of c 0 (stream_of rd), EOF, c')" by auto
  have "int (length (stream_of rd)) < int (2 ^ 63)"
    using assms(5) by (simp only: of_nat_less_iff)
  then have "int (length (stream_of rd)) < 2 ^ 63" by simp
  then show ?thesis
    using d chunks_of_offsets [OF ok, of 0 "stream_of rd"] by simp
qed

theorem offsets_contiguous_witness:
  "\<exists>chs c'. drain 4 (Reset (snd (Next (projr (NewChunker [([7], None)] 128 [WithMinSize 64]))))
                       [([1, 2, 3], None)]) = Some (chs, EOF, c')
           \<and> (chs \<noteq> [] \<longrightarrow> Offset (hd chs) = 0)
           \<and> (\<forall>i. Suc i < length chs \<longrightarrow>
                  Offset (chs ! Suc i) = Offset (chs ! i) + int (Length (chs ! i)))
           \<and> (\<forall>ch \<in> set chs. 0 < Length ch)"
proof -
  let ?c0 = "projr (NewChunker [([7], None)] 128 [WithMinSize 64])"
  have r: "reachable ?c0 (snd (Next ?c0))" by (intro reachable_Next reachable_start)
  have a: "(Reset (snd (Next ?c0)) [([1, 2, 3], None)] = ?c0 \<and> [([1, 2, 3], None)] = [([7], None)])
        \<or> (\<exists>c'. reachable ?c0 c' \<and> Reset (snd (Next ?c0)) [([1, 2, 3], None)]
                  = Reset c' [([1, 2, 3], None)])"
    using r by blast
  show ?thesis
    using offsets_contiguous [OF NewChunker_example a, of 4] by simp
qed

text \<open>
  Claim C9.  Take a chunker in any state reachable from its construction by \<^verbatim>\<open>Next\<close> and
  \<^verbatim>\<open>Reset\<close> calls (mid-stream, exhausted, after a failed read, with stale bytes in the
  buffer).  After \<^verbatim>\<open>Reset\<close> with a source that does not fail, the run to exhaustion yields
  the same chunks (offset, length, data, fingerprint) as a chunker freshly constructed
  with the same average size and options over that source.
\<close>

theorem reset_equals_fresh:
  assumes "NewChunker rd0 averageSize opts = Inr c0" and "reachable c0 c"
    and "NewChunker rd averageSize opts = Inr cf"
    and "clean rd" and "length (stream_of rd) < n"
  shows "\<exists>chs c' cf'. drain n (Reset c rd) = Some (chs, EOF, c')
           \<and> drain n cf = Some (chs, EOF, cf')"
proof -
  from reachable_config_ok [OF assms(1,2)] have ok: "config_ok c" .
  note r = Reset_fresh [OF ok assms(4)]
  note f = NewChunker_fresh [OF assms(3,4)]
  from drain_chunks [of "Reset c rd" n] r assms(5) obtain c' where
    d1: "drain n (Reset c rd) = Some (chunks_of (Reset c rd) 0 (stream_of rd), EOF, c')" by auto
  from drain_chunks [of cf n] f assms(5) obtain cf' where
    d2: "drain n cf = Some (chunks_of cf 0 (stream_of rd), EOF, cf')" by auto
  have "same_config (Reset c rd) cf"
    using r(4) reachable_same_config [OF assms(2)] NewChunker_same_config [OF assms(1,3)]
      same_config_trans by blast
  from chunks_of_same_config [OF this] d1 d2 show ?thesis by simp
qed

theorem reset_equals_fresh_witness:
  "\<exists>chs c' cf'.
     drain 4 (Reset (snd (Next (projr (NewChunker [([7], None)] 128 [WithMinSize 64]))))
               [([1, 2, 3], None)]) = Some (chs, EOF, c')
     \<and> drain 4 (projr (NewChunker [([1, 2, 3], None)] 128 [WithMinSize 64])) = Some (chs, EOF, cf')"
proof -
  let ?c0 = "projr (NewChunker [([7], None)] 128 [WithMinSize 64])"
  have r: "reachable ?c0 (snd (Next ?c0))" by (intro reachable_Next reachable_start)
  show ?thesis
    using reset_equals_fresh [OF NewChunker_example r NewChunker_example, of "[([1, 2, 3], None)]" 4]
    by simp
qed

section \<open>Chunk length bounds\<close>

text \<open>
  What holds for every accepted configuration: each chunk has a positive length of at
  most \<open>maxSize\<close>, and each chunk but the last has at least \<open>minSize\<close> rounded down to
  even bytes.
\<close>

lemma chunks_of_lengths:
  "config_ok c \<Longrightarrow>
   (\<forall>ch \<in> set (chunks_of c off rest). 0 < Length ch \<and> Length ch \<le> maxSize c)
   \<and> (\<forall>i. Suc i < length (chunks_of c off rest) \<longrightarrow>
          round_down_even (minSize c) \<le> Length (chunks_of c off rest ! i))"
proof (induction "length rest" arbitrary: off rest rule: less_induct)
  case less
  show ?case
  proof (cases "rest = []")
    case True
    then show ?thesis by simp
  next
    case False
    from cut_result [OF less.prems False] obtain len fp where
      c: "cut c rest = Inr (len, fp)" "0 < len" "len \<le> length rest" "len \<le> maxSize c"
        "minSize c < length rest \<longrightarrow> round_down_even (minSize c) \<le> len"
      by blast
    define tl' where "tl' = chunks_of c (wrap64 (off + int len)) (drop len rest)"
    have st: "chunks_of c off rest =
        \<lparr>Offset = off, Length = len, Data = take len rest, Fingerprint = fp\<rparr> # tl'"
      using chunks_of_step [OF c(1-3), of off] by (simp add: tl'_def)
    have "length (drop len rest) < length rest" using c(2,3) by simp
    from less.hyps [OF this less.prems, of "wrap64 (off + int len)"]
    have ih: "\<forall>ch \<in> set tl'. 0 < Length ch \<and> Length ch \<le> maxSize c"
      "\<forall>i. Suc i < length tl' \<longrightarrow> round_down_even (minSize c) \<le> Length (tl' ! i)"
      by (simp_all add: tl'_def)
    have first: "round_down_even (minSize c) \<le> len" if "tl' \<noteq> []"
    proof -
      have "minSize c < length rest"
      proof (rule ccontr)
        assume "\<not> minSize c < length rest"
        then have "cut c rest = Inr (length rest, 0)" by (simp add: cut_short)
        with c(1) have "drop len rest = []" by simp
        with that show False by (simp add: tl'_def)
      qed
      with c(5) show ?thesis by simp
    qed
    have "round_down_even (minSize c) \<le> Length ((x # tl') ! i)"
      if "Suc i < length (x # tl')" "Length x = len" for i x
    proof (cases i)
      case 0
      with that first show ?thesis by auto
    next
      case (Suc j)
      with that ih(2) show ?thesis by simp
    qed
    then show ?thesis unfolding st using ih(1) c(2,4) by auto
  qed
qed

lemma chunk_lengths_bounded:
  assumes "NewChunker rd averageSize opts = Inr c" and "clean rd"
    and "length (stream_of rd) < n"
  shows "\<exists>chs c'. drain n c = Some (chs, EOF, c')
           \<and> (\<forall>ch \<in> set chs. 0 < Length ch \<and> Length ch \<le> maxSize c)
           \<and> (\<forall>i. Suc i < length chs \<longrightarrow> round_down_even (minSize c) \<le> Length (chs ! i))"
proof -
  note f = NewChunker_fresh [OF assms(1,2)]
  from drain_chunks [of c n] f assms(3) obtain c' where
    d: "drain n c = Some (chunks_of c 0 (stream_of rd), EOF, c')"
    by auto
  with chunks_of_lengths [OF NewChunker_config_ok [OF assms(1)], of 0 "stream_of rd"]
  show ?thesis by simp
qed

lemma pkg_gear_248: "pkg_gear ! 248 = 0xfb1e6e22e08a03b3"
  by (simp add: pkg_gear_def)

lemma masks_9: "masks ! 9 = 0x0000019000353000"
  by (simp add: masks_def)

lemma odd_example_accepted:
  "NewChunker rd 128 [WithMinSize 65] = Inr (projr (NewChunker rd 128 [WithMinSize 65]))"
proof -
  have "\<not> isl (NewChunker rd 128 [WithMinSize 65])" by (simp add: config_eval)
  then show ?thesis by simp
qed

lemma odd_example_fields:
  "minSize (projr (NewChunker rd 128 [WithMinSize 65])) = 65"
  "maxSize (projr (NewChunker rd 128 [WithMinSize 65])) = 512"
  "normalizeSize (projr (NewChunker rd 128 [WithMinSize 65])) = 128"
  "maskSmallShifted (projr (NewChunker rd 128 [WithMinSize 65])) = push_bit 1 (masks ! 9)"
  "gearShifted (projr (NewChunker rd 128 [WithMinSize 65])) = pkg_gearShifted"
  by (simp_all add: config_eval)

lemma odd_example_cut:
  "cut (projr (NewChunker rd 128 [WithMinSize 65])) (replicate 100 248)
   = Inr (64, 0xf63cdc45c1140766)"
  by (simp add: cut_def Let_def odd_example_fields and_not_1_eq scan_loop.simps
      pkg_gearShifted_def length_pkg_gear pkg_gear_248 masks_9)


text \<open>
  Claim C3 fails on the code for an odd \<open>minSize\<close>.  \<^verbatim>\<open>cut\<close> starts its scan at
  \<^verbatim>\<open>minSize &^ 1\<close>, one below an odd \<open>minSize\<close>, and returns that position when the first
  test fires.  With average size 128 and \<^verbatim>\<open>WithMinSize(65)\<close> over 100 bytes of value 248
  the first chunk has length 64, below \<open>minSize = 65\<close>, and it is not the last chunk:
  a chunk of 36 bytes follows.
\<close>

theorem odd_minSize_chunk_below_minSize:
  "minSize (projr (NewChunker [(replicate 100 248, None)] 128 [WithMinSize 65])) = 65
   \<and> map_option (\<lambda>(chs, err, c'). (map (\<lambda>ch. (Offset ch, Length ch, Fingerprint ch)) chs, err))
        (drain 101 (projr (NewChunker [(replicate 100 248, None)] 128 [WithMinSize 65])))
      = Some ([(0, 64, 0xf63cdc45c1140766), (64, 36, 0)], EOF)"
proof -
  let ?rd = "[(replicate 100 (248 :: byte), None :: error option)]"
  let ?c = "projr (NewChunker ?rd 128 [WithMinSize 65])"
  have cl: "clean ?rd" by simp
  note f = NewChunker_fresh [OF odd_example_accepted cl]
  have p: "pending ?c = replicate 100 248" using f(2) by simp
  from drain_chunks [OF f(1), of 101] obtain c' where
    d: "drain 101 ?c = Some (chunks_of ?c 0 (replicate 100 248), EOF, c')"
    unfolding p f(3) by auto
  have c2: "cut ?c (replicate 36 248) = Inr (36, 0)"
    by (simp add: cut_short odd_example_fields)
  have w: "wrap64 64 = 64" "wrap64 100 = 100" by (simp_all add: wrap64_id)
  have "chunks_of ?c 0 (replicate 100 248) =
      [\<lparr>Offset = 0, Length = 64, Data = replicate 64 248, Fingerprint = 0xf63cdc45c1140766\<rparr>,
       \<lparr>Offset = 64, Length = 36, Data = replicate 36 248, Fingerprint = 0\<rparr>]"
    using chunks_of_step [OF odd_example_cut, of "[(replicate 100 248, None)]" 0]
      chunks_of_step [OF c2, of 64]
    by (simp add: w)
  with d show ?thesis by (simp add: odd_example_fields)
qed

section \<open>Short regions\<close>

lemma advance_inv:
  "chunker_inv c0 \<Longrightarrow> advance k c0 = Some (chs, c) \<Longrightarrow>
   chunker_inv c \<and> same_config c c0 \<and> concat (map Data chs) @ pending c = pending c0"
proof (induction k arbitrary: c0 chs)
  case 0
  then show ?case by simp
next
  case (Suc k)
  have ne: "pending c0 \<noteq> []"
  proof
    assume "pending c0 = []"
    from Next_empty [OF Suc.prems(1) this] Suc.prems(2) show False by auto
  qed
  from Next_chunk [OF Suc.prems(1) ne] obtain len fp c2 where
    s: "len \<le> length (pending c0)"
      "Next c0 = (Inr \<lparr>Offset = streamPos c0, Length = len,
                       Data = take len (pending c0), Fingerprint = fp\<rparr>, c2)"
      "chunker_inv c2" "same_config c2 c0" "pending c2 = drop len (pending c0)"
    by blast
  from Suc.prems(2) s(2) obtain chs' where
    a: "advance k c2 = Some (chs', c)"
      "chs = \<lparr>Offset = streamPos c0, Length = len,
                Data = take len (pending c0), Fingerprint = fp\<rparr> # chs'"
    by (auto split: option.splits)
  from Suc.IH [OF s(3) a(1)] have ih: "chunker_inv c" "same_config c c2"
    "concat (map Data chs') @ pending c = pending c2" by simp_all
  have "same_config c c0" using ih(2) s(4) by (rule same_config_trans)
  then show ?case using ih a(2) s(5) by simp
qed

text \<open>
  Claim C6, amended to a non-empty input.  (1) On a region no longer than \<open>minSize\<close>,
  \<^verbatim>\<open>cut\<close> returns the whole region with fingerprint 0.  (2) In a run over a source that
  does not fail, after any number of chunks \<^verbatim>\<open>fillBuffer\<close> succeeds and leaves a window of
  at least \<open>maxSize\<close> bytes unless the end of the source has been seen; and when the
  window is no longer than \<open>minSize\<close>, the chunks emitted so far followed by the window
  are the whole content: the window is the terminal remainder.  (3) A non-empty content
  no longer than \<open>minSize\<close> gives exactly one chunk, at offset 0, spanning the content,
  with fingerprint 0.
\<close>

theorem short_region_is_terminal_remainder:
  assumes "NewChunker rd averageSize opts = Inr c0" and "clean rd"
  shows "(\<forall>c data. length data \<le> minSize c \<longrightarrow> cut c data = Inr (length data, 0))
       \<and> (\<forall>k chs c e c1. advance k c0 = Some (chs, c) \<and> fillBuffer c = (e, c1) \<longrightarrow>
             e = None \<and> (maxSize c1 \<le> length (window c1) \<or> readerEOF c1)
             \<and> (length (window c1) \<le> minSize c1 \<longrightarrow>
                  concat (map Data chs) @ window c1 = stream_of rd))
       \<and> (\<forall>n. stream_of rd \<noteq> [] \<and> length (stream_of rd) \<le> minSize c0
               \<and> length (stream_of rd) < n \<longrightarrow>
             (\<exists>c'. drain n c0 =
                Some ([\<lparr>Offset = 0, Length = length (stream_of rd), Data = stream_of rd,
                        Fingerprint = 0\<rparr>], EOF, c')))"
proof (intro conjI allI impI)
  fix c :: Chunker and data :: "byte list"
  assume "length data \<le> minSize c"
  then show "cut c data = Inr (length data, 0)" by (rule cut_short)
next
  fix k chs c e c1
  assume a: "advance k c0 = Some (chs, c) \<and> fillBuffer c = (e, c1)"
  note f = NewChunker_fresh [OF assms]
  from advance_inv [OF f(1)] a have i: "chunker_inv c"
    "concat (map Data chs) @ pending c = stream_of rd"
    using f(2) by auto
  from fillBuffer_inv [OF i(1)] a have fb: "e = None" "chunker_inv c1" "same_config c1 c"
    "pending c1 = pending c" "maxSize c \<le> length (window c1) \<or> readerEOF c1"
    by auto
  from fb(3) have sz: "maxSize c1 = maxSize c" by (simp add: same_config_def)
  from fb(2) have lt: "minSize c1 < maxSize c1" by (simp add: chunker_inv_def config_ok_def)
  show "e = None" by (rule fb(1))
  show "maxSize c1 \<le> length (window c1) \<or> readerEOF c1" using fb(5) sz by simp
  show "concat (map Data chs) @ window c1 = stream_of rd" if "length (window c1) \<le> minSize c1"
  proof -
    from that lt fb(5) sz have "readerEOF c1" by auto
    then have "pending c1 = window c1" by (simp add: pending_def)
    with fb(4) i(2) show ?thesis by simp
  qed
next
  fix n
  assume a: "stream_of rd \<noteq> [] \<and> length (stream_of rd) \<le> minSize c0
             \<and> length (stream_of rd) < n"
  note f = NewChunker_fresh [OF assms]
  from drain_chunks [OF f(1), of n] a obtain c' where
    d: "drain n c0 = Some (chunks_of c0 0 (stream_of rd), EOF, c')"
    by (auto simp: f(2,3))
  have c: "cut c0 (stream_of rd) = Inr (length (stream_of rd), 0)"
    using a by (simp add: cut_short)
  have "chunks_of c0 0 (stream_of rd) =
      [\<lparr>Offset = 0, Length = length (stream_of rd), Data = stream_of rd, Fingerprint = 0\<rparr>]"
    using chunks_of_step [OF c, of 0] a by simp
  with d show "\<exists>c'. drain n c0 =
      Some ([\<lparr>Offset = 0, Length = length (stream_of rd), Data = stream_of rd,
              Fingerprint = 0\<rparr>], EOF, c')"
    by simp
qed

theorem short_region_is_terminal_remainder_witness:
  "\<exists>c'. drain 4 (projr (NewChunker [([1, 2], None), ([3], Some EOF)] 128 [WithMinSize 64]))
          = Some ([\<lparr>Offset = 0, Length = 3, Data = [1, 2, 3], Fingerprint = 0\<rparr>], EOF, c')"
proof -
  let ?rd = "[([1, 2], None), ([3 :: byte], Some EOF)]"
  have cl: "clean ?rd" by simp
  from short_region_is_terminal_remainder [OF NewChunker_example cl]
  have "stream_of ?rd \<noteq> [] \<and> length (stream_of ?rd) \<le> minSize (projr (NewChunker ?rd 128 [WithMinSize 64]))
          \<and> length (stream_of ?rd) < 4 \<longrightarrow>
        (\<exists>c'. drain 4 (projr (NewChunker ?rd 128 [WithMinSize 64])) =
           Some ([\<lparr>Offset = 0, Length = length (stream_of ?rd), Data = stream_of ?rd,
                   Fingerprint = 0\<rparr>], EOF, c'))"
    by blast
  then show ?thesis by (simp add: example_minSize numeral_3_eq_3)
qed

text \<open>
  Claim C6 as stated includes the empty input, which is shorter than \<open>minSize\<close> and gives
  no chunk at all: the first \<^verbatim>\<open>Next\<close> returns \<^verbatim>\<open>io.EOF\<close>.
\<close>

theorem empty_input_yields_no_chunk:
  "\<not> isl (NewChunker [] 128 [WithMinSize 64])
   \<and> length (stream_of []) < minSize (projr (NewChunker [] 128 [WithMinSize 64]))
   \<and> fst (Next (projr (NewChunker [] 128 [WithMinSize 64]))) = Inl EOF"
proof -
  have cl: "clean []" by simp
  note f = NewChunker_fresh [OF NewChunker_example cl]
  from Next_empty [OF f(1)] f(2)
  have "fst (Next (projr (NewChunker [] 128 [WithMinSize 64]))) = Inl EOF" by auto
  moreover have "\<not> isl (NewChunker [] 128 [WithMinSize 64])"
    using NewChunker_example [of "[]"] by (metis sum.disc(2))
  ultimately show ?thesis by (simp add: example_minSize)
qed

section \<open>Read failures and the end of the stream\<close>

lemma ReadAtLeast_loop_failure:
  "\<forall>p \<in> set pre. snd p = None \<Longrightarrow>
   length acc + length (concat (map fst pre)) + length bs < m \<Longrightarrow>
   ReadAtLeast_loop m (pre @ (bs, Some e) # rest) acc
     = (acc @ concat (map fst pre) @ bs, Some e, rest)"
proof (induction pre arbitrary: acc)
  case Nil
  then have "length bs \<le> m - length acc" "length acc < m" by simp_all
  then show ?case by (subst ReadAtLeast_loop.simps) simp
next
  case (Cons p pre)
  obtain b0 e0 where p: "p = (b0, e0)" by (cases p)
  with Cons.prems(1) have e0: "e0 = None" by simp
  have "ReadAtLeast_loop m (pre @ (bs, Some e) # rest) (acc @ b0)
        = ((acc @ b0) @ concat (map fst pre) @ bs, Some e, rest)"
    using Cons.prems p by (intro Cons.IH) simp_all
  moreover have "length b0 \<le> m - length acc" "length acc < m"
    using Cons.prems(2) p by simp_all
  ultimately show ?case
    using p e0 by (subst ReadAtLeast_loop.simps) simp
qed

lemma ReadFull_failure:
  assumes "\<forall>p \<in> set pre. snd p = None"
    and "length (concat (map fst pre)) + length bs < m" and "e \<noteq> EOF"
  shows "ReadFull m (pre @ (bs, Some e) # rest) = (concat (map fst pre) @ bs, Some e, rest)"
  using ReadAtLeast_loop_failure [OF assms(1), of "[]" bs m e rest] assms(2,3)
  by (simp add: ReadFull_def)

lemma Next_EOF_iff:
  assumes "chunker_inv c"
  shows "(fst (Next c) = Inl EOF \<longleftrightarrow> pending c = [])
         \<and> (pending c \<noteq> [] \<longrightarrow> (\<exists>ch. fst (Next c) = Inr ch))"
proof (cases "pending c = []")
  case True
  with Next_empty [OF assms] show ?thesis by auto
next
  case False
  with Next_chunk [OF assms] show ?thesis by auto
qed

text \<open>
  Claim C8, as the code has it.  (1) When \<^verbatim>\<open>Next\<close> has to read (fewer than \<open>maxSize\<close> bytes
  in the window, end of the source not seen) and a read of the source fails, before the
  buffer is full, with an error other than \<^verbatim>\<open>io.EOF\<close> and \<^verbatim>\<open>io.ErrUnexpectedEOF\<close>, then
  \<^verbatim>\<open>Next\<close> returns that error and no chunk, and the source is left right behind the failed
  read: nothing is read again.  (2) Over a source that does not fail, after any number of
  chunks, \<^verbatim>\<open>Next\<close> returns either a chunk or \<^verbatim>\<open>io.EOF\<close>, and \<^verbatim>\<open>io.EOF\<close> exactly when the
  chunks emitted so far are the whole content.
\<close>

theorem read_failure_returned_verbatim:
  assumes "bufCursor c \<le> bufEnd c" and "bufEnd c \<le> length (buf c)"
    and "bufEnd c - bufCursor c < maxSize c" and "\<not> readerEOF c"
    and "reader c = pre @ (bs, Some e) # rest" and "\<forall>p \<in> set pre. snd p = None"
    and "length (concat (map fst pre)) + length bs < length (buf c) - (bufEnd c - bufCursor c)"
    and "e \<noteq> EOF" and "e \<noteq> ErrUnexpectedEOF"
  shows "fst (Next c) = Inl e \<and> reader (snd (Next c)) = rest
       \<and> (\<forall>rd averageSize opts c0 k chs c'.
             NewChunker rd averageSize opts = Inr c0 \<and> clean rd \<and> advance k c0 = Some (chs, c')
             \<longrightarrow> (fst (Next c') = Inl EOF \<or> (\<exists>ch. fst (Next c') = Inr ch))
                \<and> (fst (Next c') = Inl EOF \<longleftrightarrow> concat (map Data chs) = stream_of rd))"
proof (intro conjI allI impI)
  have rf: "ReadFull (length (buf c) - (bufEnd c - bufCursor c)) (reader c)
            = (concat (map fst pre) @ bs, Some e, rest)"
    unfolding assms(5) using assms(6,7,8) by (rule ReadFull_failure)
  from fillBuffer_read [OF assms(1-4) rf] assms(8,9)
  have fb: "fillBuffer c =
     (Some e, c\<lparr>buf := window c @ (concat (map fst pre) @ bs)
                    @ drop (bufEnd c - bufCursor c + length (concat (map fst pre) @ bs)) (buf c),
               bufCursor := 0, reader := rest\<rparr>)"
    by simp
  show "fst (Next c) = Inl e" by (simp add: Next_def fb)
  show "reader (snd (Next c)) = rest" by (simp add: Next_def fb)
next
  fix rd averageSize opts c0 k chs c'
  assume a: "NewChunker rd averageSize opts = Inr c0 \<and> clean rd \<and> advance k c0 = Some (chs, c')"
  then have f: "chunker_inv c0" "pending c0 = stream_of rd"
    using NewChunker_fresh by blast+
  from advance_inv [OF f(1)] a have i: "chunker_inv c'"
    "concat (map Data chs) @ pending c' = stream_of rd"
    using f(2) by auto
  from Next_EOF_iff [OF i(1)]
  show "fst (Next c') = Inl EOF \<or> (\<exists>ch. fst (Next c') = Inr ch)" by blast
  from Next_EOF_iff [OF i(1)] i(2)
  show "fst (Next c') = Inl EOF \<longleftrightarrow> concat (map Data chs) = stream_of rd" by auto
qed

lemma example_fields:
  "bufCursor (projr (NewChunker rd 128 [WithMinSize 64])) = 1024"
  "bufEnd (projr (NewChunker rd 128 [WithMinSize 64])) = 1024"
  "length (buf (projr (NewChunker rd 128 [WithMinSize 64]))) = 1024"
  "maxSize (projr (NewChunker rd 128 [WithMinSize 64])) = 512"
  "readerEOF (projr (NewChunker rd 128 [WithMinSize 64])) = False"
  "reader (projr (NewChunker rd 128 [WithMinSize 64])) = rd"
  by (simp_all add: config_eval)

theorem read_failure_returned_verbatim_witness:
  "fst (Next (projr (NewChunker [([1, 2], None), ([], Some (SourceError 7)), ([1, 2, 3], None)]
                      128 [WithMinSize 64]))) = Inl (SourceError 7)
   \<and> reader (snd (Next (projr (NewChunker
                      [([1, 2], None), ([], Some (SourceError 7)), ([1, 2, 3], None)]
                      128 [WithMinSize 64])))) = [([1, 2, 3], None)]"
proof -
  let ?rd = "[([1, 2 :: byte], None), ([], Some (SourceError 7)), ([1, 2, 3], None)]"
  let ?c = "projr (NewChunker ?rd 128 [WithMinSize 64])"
  have r: "reader ?c = [([1, 2], None)] @ ([], Some (SourceError 7)) # [([1, 2, 3], None)]"
    by (simp add: example_fields)
  have "fst (Next ?c) = Inl (SourceError 7) \<and> reader (snd (Next ?c)) = [([1, 2, 3], None)]"
    using read_failure_returned_verbatim [of ?c "[([1, 2], None)]" "[]" "SourceError 7"
        "[([1, 2, 3], None)]", OF _ _ _ _ r]
    by (simp add: example_fields)
  then show ?thesis .
qed

text \<open>
  Claim C8 as stated fails for a source whose read fails with \<^verbatim>\<open>io.ErrUnexpectedEOF\<close> (a
  truncated compressed stream, for one): \<^verbatim>\<open>fillBuffer\<close> takes it for the end of the
  stream, and \<^verbatim>\<open>Next\<close> returns the end-of-stream sentinel \<^verbatim>\<open>io.EOF\<close> instead of the error.
\<close>

theorem ErrUnexpectedEOF_reported_as_EOF:
  "\<not> isl (NewChunker [([], Some ErrUnexpectedEOF)] 128 [WithMinSize 64])
   \<and> fst (Next (projr (NewChunker [([], Some ErrUnexpectedEOF)] 128 [WithMinSize 64]))) = Inl EOF"
proof -
  let ?rd = "[([] :: byte list, Some ErrUnexpectedEOF)]"
  let ?c = "projr (NewChunker ?rd 128 [WithMinSize 64])"
  have rf: "ReadFull (length (buf ?c) - (bufEnd ?c - bufCursor ?c)) (reader ?c)
            = ([], Some ErrUnexpectedEOF, [])"
    by (simp add: example_fields ReadFull_def ReadAtLeast_loop.simps)
  have "fst (Next ?c) = Inl EOF"
    using fillBuffer_read [of ?c, OF _ _ _ _ rf]
    by (simp add: Next_def example_fields window_def)
  moreover have "\<not> isl (NewChunker ?rd 128 [WithMinSize 64])"
    using NewChunker_example [of ?rd] by (metis sum.disc(2))
  ultimately show ?thesis by simp
qed

end
